theory Spec2Isabelle
  imports Complex_Main "HOL-Library.Multiset" "HOL-Library.Sublist"
begin

section \<open>Owner detection: the data model\<close>

text \<open>
  The development embeds \<^verbatim>\<open>owner_detection.py\<close>. Python strings are lists of
  characters; a \<^typ>\<open>char\<close> is read as a code point in U+0000..U+00FF. A value that may be
  \<^verbatim>\<open>None\<close> (or a key that may be absent) is an \<^typ>\<open>'a option\<close>. Prices are the
  integers the scrapers store. A listing always carries its \<^verbatim>\<open>id\<close> (the store's primary
  key, a natural number here).
\<close>

record listing =
  listing_id :: nat
  platform :: "string option"
  host_id :: "string option"
  host_name :: "string option"
  price :: "int option"
  raw_data :: "(string \<rightharpoonup> string) option"
  is_active :: bool

datatype match_type = Phone | HostId

record owner_group =
  match_type :: match_type
  group_identifier :: string
  listings :: "listing list"
  listing_ids :: "nat list"

section \<open>Phone normalizer\<close>

text \<open>
  \<^verbatim>\<open>str.isdigit\<close> on the code points below 256: the ASCII digits and the three
  superscript digits U+00B2, U+00B3, U+00B9.
\<close>

definition isdigit :: "char \<Rightarrow> bool" where
  "isdigit c = (c \<in> set ''0123456789'' \<or> c \<in> {CHR 0xB2, CHR 0xB3, CHR 0xB9})"

definition startswith :: "string \<Rightarrow> string \<Rightarrow> bool" where
  "startswith s p = (take (length p) s = p)"

definition normalize_phone :: "string \<Rightarrow> string option" where
  "normalize_phone phone =
     (if phone = [] then None
      else
        let digits = filter isdigit phone;
            digits =
              (if startswith digits ''00221'' then drop 5 digits
               else if startswith digits ''221'' then drop 3 digits
               else if startswith digits ''0'' then drop 1 digits
               else digits)
        in if length digits = 9 \<and> (startswith digits ''7'' \<or> startswith digits ''3'')
           then Some (''+221'' @ digits)
           else None)"

section \<open>Signal extractor\<close>

definition phone_fields :: "string list" where
  "phone_fields = [''phone'', ''phoneNumber'', ''whatsapp'', ''contact_phone'']"

text \<open>The loop over the phone fields of \<^verbatim>\<open>extract_phone_from_listing\<close>.\<close>

fun try_phone_fields :: "(string \<rightharpoonup> string) \<Rightarrow> string list \<Rightarrow> string option" where
  "try_phone_fields rd [] = None"
| "try_phone_fields rd (field # rest) =
     (case rd field of
        None \<Rightarrow> try_phone_fields rd rest
      | Some phone \<Rightarrow>
          if phone \<noteq> [] then
            (case normalize_phone phone of
               Some normalized \<Rightarrow> Some normalized
             | None \<Rightarrow> try_phone_fields rd rest)
          else try_phone_fields rd rest)"

definition extract_phone_from_listing :: "listing \<Rightarrow> string option" where
  "extract_phone_from_listing l =
     try_phone_fields (case raw_data l of None \<Rightarrow> Map.empty | Some rd \<Rightarrow> rd) phone_fields"

definition host_platforms :: "string list" where
  "host_platforms = [''airbnb'', ''booking'']"

text \<open>
  Lines 87 to 90 of \<^verbatim>\<open>detect_owners\<close>: the key under which a listing enters
  \<^verbatim>\<open>by_host_id\<close>, if it enters at all.
\<close>

definition host_id_key :: "listing \<Rightarrow> string option" where
  "host_id_key l =
     (case host_id l of
        None \<Rightarrow> None
      | Some hid \<Rightarrow>
          (case platform l of
             None \<Rightarrow> None
           | Some p \<Rightarrow>
               if hid \<noteq> [] \<and> p \<in> set host_platforms then Some (p @ '':'' @ hid) else None))"

section \<open>Cluster builder\<close>

text \<open>
  A \<^verbatim>\<open>defaultdict(list)\<close> keeps its keys in insertion order, so it is an association
  list; \<^verbatim>\<open>d[k].append(v)\<close> is \<open>dd_append\<close>.
\<close>

type_synonym groups = "(string \<times> listing list) list"

fun dd_append :: "string \<Rightarrow> listing \<Rightarrow> groups \<Rightarrow> groups" where
  "dd_append k v [] = [(k, [v])]"
| "dd_append k v ((k', vs) # rest) =
     (if k' = k then (k', vs @ [v]) # rest else (k', vs) # dd_append k v rest)"

definition group_step :: "groups \<times> groups \<Rightarrow> listing \<Rightarrow> groups \<times> groups" where
  "group_step acc l =
     (case acc of (by_phone, by_host_id) \<Rightarrow>
        ((case extract_phone_from_listing l of
            Some phone \<Rightarrow> dd_append phone l by_phone
          | None \<Rightarrow> by_phone),
         (case host_id_key l of
            Some key \<Rightarrow> dd_append key l by_host_id
          | None \<Rightarrow> by_host_id)))"

definition group_listings :: "listing list \<Rightarrow> groups \<times> groups" where
  "group_listings ls = foldl group_step ([], []) ls"

fun process_phone_groups ::
  "groups \<Rightarrow> owner_group list \<times> nat set \<Rightarrow> owner_group list \<times> nat set" where
  "process_phone_groups [] acc = acc"
| "process_phone_groups ((phone, phone_listings) # rest) (owner_groups, processed_listing_ids) =
     (if length phone_listings \<ge> 1 then
        let ids = map listing_id phone_listings
        in process_phone_groups rest
             (owner_groups @
                [\<lparr>match_type = Phone, group_identifier = phone,
                  listings = phone_listings, listing_ids = ids\<rparr>],
              processed_listing_ids \<union> set ids)
      else process_phone_groups rest (owner_groups, processed_listing_ids))"

fun process_host_groups ::
  "groups \<Rightarrow> owner_group list \<times> nat set \<Rightarrow> owner_group list \<times> nat set" where
  "process_host_groups [] acc = acc"
| "process_host_groups ((hkey, host_listings) # rest) (owner_groups, processed_listing_ids) =
     (let ids = map listing_id host_listings;
          new_ids = filter (\<lambda>lid. lid \<notin> processed_listing_ids) ids
      in if new_ids \<noteq> [] then
           let new_listings = filter (\<lambda>l. listing_id l \<in> set new_ids) host_listings
           in if new_listings \<noteq> [] then
                process_host_groups rest
                  (owner_groups @
                     [\<lparr>match_type = HostId, group_identifier = hkey,
                       listings = new_listings, listing_ids = new_ids\<rparr>],
                   processed_listing_ids \<union> set new_ids)
              else process_host_groups rest (owner_groups, processed_listing_ids)
         else process_host_groups rest (owner_groups, processed_listing_ids))"

text \<open>Lines 75 to 125 of \<^verbatim>\<open>detect_owners\<close>: from the listings to \<^verbatim>\<open>owner_groups\<close>.\<close>

definition build_owner_groups :: "listing list \<Rightarrow> owner_group list" where
  "build_owner_groups ls =
     (case group_listings ls of (by_phone, by_host_id) \<Rightarrow>
        fst (process_host_groups by_host_id (process_phone_groups by_phone ([], {}))))"

section \<open>Owner aggregator\<close>

text \<open>
  \<^verbatim>\<open>str.isspace\<close> on the code points below 256, and \<^verbatim>\<open>str.strip()\<close>.
\<close>

definition isspace :: "char \<Rightarrow> bool" where
  "isspace c =
     (c \<in> {CHR 0x09, CHR 0x0A, CHR 0x0B, CHR 0x0C, CHR 0x0D, CHR 0x1C, CHR 0x1D, CHR 0x1E,
            CHR 0x1F, CHR 0x20, CHR 0x85, CHR 0xA0})"

definition strip :: "string \<Rightarrow> string" where
  "strip s = rev (dropWhile isspace (rev (dropWhile isspace s)))"

text \<open>An f-string field \<^verbatim>\<open>{x}\<close> for an \<open>x\<close> that is a string or \<^verbatim>\<open>None\<close>.\<close>

definition format_str :: "string option \<Rightarrow> string" where
  "format_str x = (case x of None \<Rightarrow> ''None'' | Some s \<Rightarrow> s)"

text \<open>
  \<^verbatim>\<open>int(a / b)\<close> for integers \<open>a\<close> and \<open>b \<noteq> 0\<close> (line 176). Python divides two integers
  into the binary64 float nearest to their quotient: 53 significant bits, a tie going to
  the even significand. \<^verbatim>\<open>int\<close> then truncates the float towards zero. A float is the
  rational number it denotes. The exponent is left unbounded: binary64 ends at \<open>2^1024\<close>,
  where Python raises \<^verbatim>\<open>OverflowError\<close>, and it has fewer bits below \<open>2^-1022\<close>.
\<close>

fun ilog2 :: "nat \<Rightarrow> nat" where
  "ilog2 n = (if n < 2 then 0 else Suc (ilog2 (n div 2)))"

declare ilog2.simps [simp del]

text \<open>The exponent \<open>e\<close> of a positive rational \<open>x\<close>, for which \<open>2^e \<le> x < 2^(e+1)\<close>.\<close>

definition float_exponent :: "rat \<Rightarrow> int" where
  "float_exponent x =
     (if 1 \<le> x then int (ilog2 (nat \<lfloor>x\<rfloor>))
      else let l = ilog2 (nat \<lfloor>1 / x\<rfloor>)
           in if 1 / x = 2 ^ l then - int l else - int (Suc l))"

definition pow2 :: "int \<Rightarrow> rat" where
  "pow2 k = (if 0 \<le> k then 2 ^ nat k else 1 / 2 ^ nat (- k))"

definition round_half_even :: "rat \<Rightarrow> int" where
  "round_half_even x =
     (let n = \<lfloor>x\<rfloor>; r = x - of_int n
      in if r < 1 / 2 then n else if 1 / 2 < r then n + 1 else if even n then n else n + 1)"

definition float_round :: "rat \<Rightarrow> rat" where
  "float_round x =
     (if x = 0 then 0
      else let e = float_exponent \<bar>x\<bar>
           in of_int (round_half_even (x * pow2 (52 - e))) * pow2 (e - 52))"

definition int_of_float :: "rat \<Rightarrow> int" where
  "int_of_float x = (if 0 \<le> x then \<lfloor>x\<rfloor> else \<lceil>x\<rceil>)"

definition int_truediv :: "int \<Rightarrow> int \<Rightarrow> int" where
  "int_truediv a b = int_of_float (float_round (of_int a / of_int b))"

text \<open>The five accumulators of the loop over a group's listings (lines 151 to 174).\<close>

record collected =
  c_names :: "string set"
  c_platforms :: "string option set"
  c_host_ids :: "string set"
  total_price :: int
  price_count :: nat

definition collect_step :: "collected \<Rightarrow> listing \<Rightarrow> collected" where
  "collect_step c l =
     (let c1 = (case host_name l of
                  None \<Rightarrow> c
                | Some hn \<Rightarrow>
                    if hn \<noteq> [] \<and> strip hn \<noteq> []
                    then c\<lparr>c_names := insert (strip hn) (c_names c)\<rparr> else c);
          c2 = c1\<lparr>c_platforms := insert (platform l) (c_platforms c1)\<rparr>;
          c3 = (case host_id l of
                  None \<Rightarrow> c2
                | Some hid \<Rightarrow>
                    if hid \<noteq> []
                    then c2\<lparr>c_host_ids :=
                            insert (format_str (platform l) @ '':'' @ hid) (c_host_ids c2)\<rparr>
                    else c2)
      in (case price l of
            None \<Rightarrow> c3
          | Some pr \<Rightarrow>
              if pr \<noteq> 0 \<and> pr > 0
              then c3\<lparr>total_price := total_price c3 + pr, price_count := price_count c3 + 1\<rparr>
              else c3))"

definition collect :: "listing list \<Rightarrow> collected" where
  "collect ls =
     foldl collect_step
       \<lparr>c_names = {}, c_platforms = {}, c_host_ids = {}, total_price = 0, price_count = 0\<rparr> ls"

definition avg_price :: "listing list \<Rightarrow> int" where
  "avg_price ls =
     (let c = collect ls
      in if price_count c > 0 then int_truediv (total_price c) (int (price_count c)) else 0)"

definition estimated_monthly :: "listing list \<Rightarrow> int" where
  "estimated_monthly ls =
     (if avg_price ls \<noteq> 0 then avg_price ls * int (length ls) * 15 else 0)"

text \<open>
  \<^verbatim>\<open>owner_data\<close>, the dictionary sent to the store. The keys \<^verbatim>\<open>primary_phone\<close> and
  \<^verbatim>\<open>first_seen_at\<close> are not always present: \<open>None\<close> is the absent key. A Python set
  turned into a list has no defined order, so the three collections stay sets. Times are
  natural numbers (\<^verbatim>\<open>isoformat\<close> is injective).
\<close>

record owner_data =
  names :: "string set"
  host_ids :: "string set"
  platforms :: "string option set"
  listing_count :: nat
  active_listing_count :: nat
  unregistered_count :: nat
  registered_count :: nat
  avg_price_per_night :: int
  estimated_monthly_revenue :: int
  last_seen_at :: nat
  primary_phone :: "string option"
  first_seen_at :: "nat option"

text \<open>Lines 146 to 199: the record built for a group, given the reading of the clock.\<close>

definition build_owner_data :: "owner_group \<Rightarrow> nat \<Rightarrow> owner_data" where
  "build_owner_data g now =
     (let ls = listings g;
          c = collect ls;
          d = \<lparr>names = c_names c, host_ids = c_host_ids c, platforms = c_platforms c,
               listing_count = length ls, active_listing_count = length ls,
               unregistered_count = length ls, registered_count = 0,
               avg_price_per_night = avg_price ls,
               estimated_monthly_revenue = estimated_monthly ls,
               last_seen_at = now, primary_phone = None, first_seen_at = None\<rparr>
      in if match_type g = Phone then d\<lparr>primary_phone := Some (group_identifier g)\<rparr> else d)"

text \<open>
  For a host-id group whose identifier holds a colon the source also splits the
  identifier into \<^verbatim>\<open>platform\<close> and \<^verbatim>\<open>hid\<close> (line 198) and then drops both: nothing of
  it reaches \<^verbatim>\<open>owner_data\<close>, so \<open>build_owner_data\<close> has no branch for it.
\<close>

section \<open>The store and the environment\<close>

text \<open>
  Modelled from the spec: the owner store behind the \<^verbatim>\<open>supabase\<close> client (the tables
  \<^verbatim>\<open>scraped_listings\<close>, \<^verbatim>\<open>detected_owners\<close>, \<^verbatim>\<open>owner_listings\<close> and the procedure
  \<^verbatim>\<open>calculate_owner_risk_score\<close>), which is a service outside the source. A table is the
  list of its rows in insertion order; the store gives a new owner the next unused id; the
  link table is unique on \<open>(owner_id, scraped_listing_id)\<close>; the risk procedure is a field
  of the store. Every call to the store may raise: \<open>faults\<close> says whether the \<open>n\<close>-th call
  does, and with which message. \<open>calls\<close> records the calls made. \<^verbatim>\<open>datetime.now()\<close> reads
  \<open>clock\<close>: the \<open>n\<close>-th reading is \<open>clock n\<close>. \<open>stderr\<close> holds the lines printed.
\<close>

record owner_row =
  owner_id :: nat
  risk_score :: int
  owner_fields :: owner_data

record owner_listing =
  link_owner_id :: nat
  scraped_listing_id :: nat
  link_match_type :: match_type
  confidence :: rat

datatype db_call =
    SelectActiveListings
  | SelectOwnerByPhone string
  | UpdateOwner nat
  | InsertOwner
  | UpsertOwnerListing nat nat
  | RpcRiskScore nat
  | SelectOwnersByRisk
  | CountActiveListings

record world =
  scraped_listings :: "listing list"
  detected_owners :: "owner_row list"
  owner_listings :: "owner_listing list"
  next_owner_id :: nat
  risk_procedure :: "owner_row list \<Rightarrow> owner_listing list \<Rightarrow> nat \<Rightarrow> int"
  calls :: "db_call list"
  faults :: "nat \<Rightarrow> string option"
  clock :: "nat \<Rightarrow> nat"
  clock_reads :: nat
  stderr :: "string list"

definition datetime_now :: "world \<Rightarrow> nat \<times> world" where
  "datetime_now w = (clock w (clock_reads w), w\<lparr>clock_reads := Suc (clock_reads w)\<rparr>)"

definition print_stderr :: "string \<Rightarrow> world \<Rightarrow> world" where
  "print_stderr line w = w\<lparr>stderr := stderr w @ [line]\<rparr>"

text \<open>\<^verbatim>\<open>.execute()\<close>: the call is recorded; the result is the exception it raises, if any.\<close>

definition execute :: "db_call \<Rightarrow> world \<Rightarrow> string option \<times> world" where
  "execute c w = (faults w (length (calls w)), w\<lparr>calls := calls w @ [c]\<rparr>)"

definition select_active_listings :: "world \<Rightarrow> (string + listing list) \<times> world" where
  "select_active_listings w =
     (case execute SelectActiveListings w of
        (Some e, w') \<Rightarrow> (Inl e, w')
      | (None, w') \<Rightarrow> (Inr (filter is_active (scraped_listings w')), w'))"

text \<open>\<^verbatim>\<open>select('id').eq('primary_phone', identifier)\<close>: the ids of the matching rows.\<close>

definition select_owner_by_phone :: "string \<Rightarrow> world \<Rightarrow> (string + nat list) \<times> world" where
  "select_owner_by_phone p w =
     (case execute (SelectOwnerByPhone p) w of
        (Some e, w') \<Rightarrow> (Inl e, w')
      | (None, w') \<Rightarrow>
          (Inr (map owner_id
                  (filter (\<lambda>r. primary_phone (owner_fields r) = Some p) (detected_owners w'))),
           w'))"

text \<open>An update overwrites the columns whose keys the dictionary holds.\<close>

definition apply_update :: "owner_data \<Rightarrow> owner_row \<Rightarrow> owner_row" where
  "apply_update d r =
     r\<lparr>owner_fields :=
         d\<lparr>primary_phone :=
              (case primary_phone d of
                 None \<Rightarrow> primary_phone (owner_fields r)
               | Some p \<Rightarrow> Some p),
            first_seen_at :=
              (case first_seen_at d of
                 None \<Rightarrow> first_seen_at (owner_fields r)
               | Some t \<Rightarrow> Some t)\<rparr>\<rparr>"

definition update_rows :: "owner_data \<Rightarrow> nat \<Rightarrow> owner_row list \<Rightarrow> owner_row list" where
  "update_rows d i rows = map (\<lambda>r. if owner_id r = i then apply_update d r else r) rows"

definition update_owner :: "owner_data \<Rightarrow> nat \<Rightarrow> world \<Rightarrow> string option \<times> world" where
  "update_owner d i w =
     (case execute (UpdateOwner i) w of
        (Some e, w') \<Rightarrow> (Some e, w')
      | (None, w') \<Rightarrow>
          (None, w'\<lparr>detected_owners := update_rows d i (detected_owners w')\<rparr>))"

definition insert_owner :: "owner_data \<Rightarrow> world \<Rightarrow> (string + nat) \<times> world" where
  "insert_owner d w =
     (case execute InsertOwner w of
        (Some e, w') \<Rightarrow> (Inl e, w')
      | (None, w') \<Rightarrow>
          (Inr (next_owner_id w'),
           w'\<lparr>detected_owners :=
                detected_owners w' @
                  [\<lparr>owner_id = next_owner_id w', risk_score = 0, owner_fields = d\<rparr>],
              next_owner_id := Suc (next_owner_id w')\<rparr>))"

definition same_link :: "owner_listing \<Rightarrow> owner_listing \<Rightarrow> bool" where
  "same_link a b \<longleftrightarrow>
     link_owner_id a = link_owner_id b \<and> scraped_listing_id a = scraped_listing_id b"

text \<open>\<^verbatim>\<open>upsert(link_data, on_conflict='owner_id,scraped_listing_id')\<close>.\<close>

definition upsert_row :: "owner_listing \<Rightarrow> owner_listing list \<Rightarrow> owner_listing list" where
  "upsert_row link rows =
     (if list_ex (same_link link) rows
      then map (\<lambda>x. if same_link link x then link else x) rows
      else rows @ [link])"

definition upsert_owner_listing :: "owner_listing \<Rightarrow> world \<Rightarrow> string option \<times> world" where
  "upsert_owner_listing link w =
     (case execute (UpsertOwnerListing (link_owner_id link) (scraped_listing_id link)) w of
        (Some e, w') \<Rightarrow> (Some e, w')
      | (None, w') \<Rightarrow> (None, w'\<lparr>owner_listings := upsert_row link (owner_listings w')\<rparr>))"

definition set_risk :: "nat \<Rightarrow> int \<Rightarrow> owner_row list \<Rightarrow> owner_row list" where
  "set_risk i v rows = map (\<lambda>r. if owner_id r = i then r\<lparr>risk_score := v\<rparr> else r) rows"

definition rpc_calculate_owner_risk_score :: "nat \<Rightarrow> world \<Rightarrow> string option \<times> world" where
  "rpc_calculate_owner_risk_score i w =
     (case execute (RpcRiskScore i) w of
        (Some e, w') \<Rightarrow> (Some e, w')
      | (None, w') \<Rightarrow>
          (None,
           w'\<lparr>detected_owners :=
                set_risk i (risk_procedure w' (detected_owners w') (owner_listings w') i)
                  (detected_owners w')\<rparr>))"

section \<open>Owner store reconciler\<close>

record stats =
  total_owners :: nat
  multi_property :: nat
  new_owners :: nat
  updated_owners :: nat

text \<open>Lines 201 to 206: the owner the group updates, if any.\<close>

definition find_existing :: "owner_group \<Rightarrow> world \<Rightarrow> (string + nat option) \<times> world" where
  "find_existing g w =
     (if match_type g = Phone \<and> group_identifier g \<noteq> [] then
        (case select_owner_by_phone (group_identifier g) w of
           (Inl e, w') \<Rightarrow> (Inl e, w')
         | (Inr [], w') \<Rightarrow> (Inr None, w')
         | (Inr (i # _), w') \<Rightarrow> (Inr (Some i), w'))
      else (Inr None, w))"

text \<open>Lines 208 to 218: the update or the insert, the owner's id and the counter.\<close>

definition write_owner ::
  "nat option \<Rightarrow> owner_data \<Rightarrow> stats \<Rightarrow> world \<Rightarrow> (string + nat) \<times> stats \<times> world" where
  "write_owner existing d st w =
     (case existing of
        Some i \<Rightarrow>
          (case update_owner d i w of
             (Some e, w') \<Rightarrow> (Inl e, st, w')
           | (None, w') \<Rightarrow> (Inr i, st\<lparr>updated_owners := updated_owners st + 1\<rparr>, w'))
      | None \<Rightarrow>
          (case datetime_now w of
             (t, w1) \<Rightarrow>
               (case insert_owner (d\<lparr>first_seen_at := Some t\<rparr>) w1 of
                  (Inl e, w') \<Rightarrow> (Inl e, st, w')
                | (Inr i, w') \<Rightarrow> (Inr i, st\<lparr>new_owners := new_owners st + 1\<rparr>, w'))))"

text \<open>Lines 221 to 231: one upsert for each listing of the group.\<close>

definition link_data :: "nat \<Rightarrow> match_type \<Rightarrow> listing \<Rightarrow> owner_listing" where
  "link_data i mt l =
     \<lparr>link_owner_id = i, scraped_listing_id = listing_id l, link_match_type = mt,
      confidence = (if mt = Phone then 1 else 9 / 10)\<rparr>"

fun link_listings :: "nat \<Rightarrow> match_type \<Rightarrow> listing list \<Rightarrow> world \<Rightarrow> string option \<times> world" where
  "link_listings i mt [] w = (None, w)"
| "link_listings i mt (l # ls) w =
     (case upsert_owner_listing (link_data i mt l) w of
        (Some e, w') \<Rightarrow> (Some e, w')
      | (None, w') \<Rightarrow> link_listings i mt ls w')"

text \<open>
  The body of the \<^verbatim>\<open>try\<close> for one group: the exception that ended it, if any, with the
  counters and the world as they are then.
\<close>

definition save_group :: "owner_group \<Rightarrow> stats \<Rightarrow> world \<Rightarrow> string option \<times> stats \<times> world" where
  "save_group g st w =
     (case datetime_now w of
        (now, w1) \<Rightarrow>
          (case find_existing g w1 of
             (Inl e, w2) \<Rightarrow> (Some e, st, w2)
           | (Inr existing, w2) \<Rightarrow>
               (case write_owner existing (build_owner_data g now) st w2 of
                  (Inl e, st3, w3) \<Rightarrow> (Some e, st3, w3)
                | (Inr i, st3, w3) \<Rightarrow>
                    (case link_listings i (match_type g) (listings g) w3 of
                       (Some e, w4) \<Rightarrow> (Some e, st3, w4)
                     | (None, w4) \<Rightarrow>
                         (case rpc_calculate_owner_risk_score i w4 of
                            (Some e, w5) \<Rightarrow> (Some e, st3, w5)
                          | (None, w5) \<Rightarrow>
                              (None,
                               st3\<lparr>total_owners := total_owners st3 + 1,
                                   multi_property :=
                                     (if length (listings g) > 1 then multi_property st3 + 1
                                      else multi_property st3)\<rparr>,
                               w5))))))"

fun save_groups :: "owner_group list \<Rightarrow> stats \<Rightarrow> world \<Rightarrow> stats \<times> world" where
  "save_groups [] st w = (st, w)"
| "save_groups (g # gs) st w =
     (case save_group g st w of
        (None, st', w') \<Rightarrow> save_groups gs st' w'
      | (Some e, st', w') \<Rightarrow>
          save_groups gs st' (print_stderr (''[Owner Detection] Error saving owner: '' @ e) w'))"

definition save_owners_to_db :: "owner_group list \<Rightarrow> world \<Rightarrow> stats \<times> world" where
  "save_owners_to_db owner_groups w =
     save_groups owner_groups
       \<lparr>total_owners = 0, multi_property = 0, new_owners = 0, updated_owners = 0\<rparr> w"

section \<open>The run and the report\<close>

text \<open>\<^verbatim>\<open>str(n)\<close> for a natural number, as the f-strings of the progress lines need it.\<close>

fun str_nat :: "nat \<Rightarrow> string" where
  "str_nat n =
     (if n < 10 then [char_of (48 + n)]
      else str_nat (n div 10) @ [char_of (48 + n mod 10)])"

declare str_nat.simps [simp del]

text \<open>
  \<^verbatim>\<open>detect_owners\<close>. The listings are read outside any \<^verbatim>\<open>try\<close>: an exception there ends
  the run (\<open>Inl\<close>).
\<close>

definition detect_owners :: "world \<Rightarrow> (string + stats) \<times> world" where
  "detect_owners w =
     (case select_active_listings
             (print_stderr (CHR 0x0A # ''[Owner Detection] Starting analysis...'') w) of
        (Inl e, w1) \<Rightarrow> (Inl e, w1)
      | (Inr ls, w1) \<Rightarrow>
          (let w2 = print_stderr
                      (''[Owner Detection] Analyzing '' @ str_nat (length ls) @ '' listings'') w1;
               owner_groups = build_owner_groups ls;
               w3 = print_stderr
                      (''[Owner Detection] Found '' @ str_nat (length owner_groups) @
                       '' owner groups'') w2
           in (case save_owners_to_db owner_groups w3 of (st, w4) \<Rightarrow> (Inr st, w4))))"

record top_operator =
  phone :: "string option"
  op_names :: "string set"
  op_platforms :: "string option set"
  op_listing_count :: nat
  op_risk_score :: int
  op_estimated_monthly_revenue :: int






section \<open>Specification-side definitions and auxiliary predicates\<close>







text \<open>The normalizer's result on one field of \<^verbatim>\<open>raw_data\<close> (no signal when it is absent).\<close>

definition field_signal :: "listing \<Rightarrow> string \<Rightarrow> string option" where
  "field_signal l f =
     (case raw_data l of
        None \<Rightarrow> None
      | Some rd \<Rightarrow> (case rd f of None \<Rightarrow> None | Some v \<Rightarrow> normalize_phone v))"

text \<open>The cluster a phone group becomes, and what the groups of a dictionary satisfy.\<close>

definition phone_group :: "string \<times> listing list \<Rightarrow> owner_group" where
  "phone_group kv = \<lparr>match_type = Phone, group_identifier = fst kv,
                     listings = snd kv, listing_ids = map listing_id (snd kv)\<rparr>"

definition groups_ok :: "(listing \<Rightarrow> string option) \<Rightarrow> groups \<Rightarrow> bool" where
  "groups_ok f g \<longleftrightarrow>
     distinct (map fst g)
     \<and> (\<forall>kv \<in> set g. snd kv \<noteq> [] \<and> (\<forall>x \<in> set (snd kv). f x = Some (fst kv)))"

definition host_group_of :: "nat set \<Rightarrow> groups \<Rightarrow> owner_group \<Rightarrow> bool" where
  "host_group_of pr g h \<longleftrightarrow>
     match_type h = HostId \<and> listing_ids h \<noteq> []
     \<and> listing_ids h = map listing_id (listings h)
     \<and> set (listing_ids h) \<inter> pr = {}
     \<and> (\<exists>kv \<in> set g. group_identifier h = fst kv \<and> set (listings h) \<subseteq> set (snd kv))"

definition phone_cluster_ok :: "owner_group \<Rightarrow> bool" where
  "phone_cluster_ok p \<longleftrightarrow>
     match_type p = Phone \<and> listing_ids p \<noteq> []
     \<and> listing_ids p = map listing_id (listings p)
     \<and> (\<forall>l \<in> set (listings p). extract_phone_from_listing l = Some (group_identifier p))"

definition host_cluster_ok :: "owner_group \<Rightarrow> bool" where
  "host_cluster_ok h \<longleftrightarrow>
     match_type h = HostId \<and> listing_ids h \<noteq> []
     \<and> listing_ids h = map listing_id (listings h)
     \<and> (\<forall>l \<in> set (listings h). host_id_key l = Some (group_identifier h))"

text \<open>
  The arithmetic mean of the positive prices of a group, as the specification words the
  average nightly price (0 when there is none).
\<close>

definition positive_prices :: "listing list \<Rightarrow> int list" where
  "positive_prices ls = filter (\<lambda>p. p > 0) (List.map_filter price ls)"

definition spec_mean_price :: "listing list \<Rightarrow> rat" where
  "spec_mean_price ls =
     (if positive_prices ls = [] then 0
      else of_int (sum_list (positive_prices ls)) / of_nat (length (positive_prices ls)))"

text \<open>
  Concrete inputs for the closed instances below: an active listing with the given
  columns, and a store with the given listings, no owner and no link, whose clock reads
  \<open>1000, 1001, ...\<close> and whose risk procedure counts the owner's links.
\<close>

definition a_listing ::
  "nat \<Rightarrow> string \<Rightarrow> string option \<Rightarrow> string option \<Rightarrow> int option \<Rightarrow> (string \<times> string) list \<Rightarrow> listing" where
  "a_listing i pf hid hn pr rd =
     \<lparr>listing_id = i, platform = Some pf, host_id = hid, host_name = hn, price = pr,
      raw_data = Some (map_of rd), is_active = True\<rparr>"

definition empty_store :: "listing list \<Rightarrow> (nat \<Rightarrow> string option) \<Rightarrow> world" where
  "empty_store ls f =
     \<lparr>scraped_listings = ls, detected_owners = [], owner_listings = [], next_owner_id = 1,
      risk_procedure = (\<lambda>owners links i. int (length (filter (\<lambda>x. link_owner_id x = i) links))),
      calls = [], faults = f, clock = (\<lambda>n. 1000 + n), clock_reads = 0, stderr = []\<rparr>"

text \<open>
  What no step of a run changes: the listings, the faults, the clock and the risk
  procedure; the calls made and the readings taken only grow.
\<close>

definition same_env :: "world \<Rightarrow> world \<Rightarrow> bool" where
  "same_env w w' \<longleftrightarrow>
     scraped_listings w' = scraped_listings w \<and> faults w' = faults w \<and> clock w' = clock w
     \<and> risk_procedure w' = risk_procedure w \<and> prefix (calls w) (calls w')
     \<and> clock_reads w \<le> clock_reads w'"


text \<open>The exceptions a step can raise are those the faults hold, at or after the calls made.\<close>

definition raised :: "world \<Rightarrow> string \<Rightarrow> bool" where
  "raised w e \<longleftrightarrow> (\<exists>n \<ge> length (calls w). faults w n = Some e)"

text \<open>
  Four listings of two operators: the first and the third share a phone, the first and the
  second share an airbnb host id, the host id of the third is shared with no other.
\<close>

definition four_listings :: "listing list" where
  "four_listings =
     [a_listing 1 ''airbnb'' (Some ''h1'') (Some ''Awa'') (Some 100)
        [(''phone'', ''+221771111111'')],
      a_listing 2 ''airbnb'' (Some ''h1'') (Some '' Awa Diop '') (Some 150) [],
      a_listing 3 ''booking'' (Some ''h2'') (Some ''Awa'') (Some 50)
        [(''phone'', ''123''), (''whatsapp'', ''77 111 11 11'')],
      a_listing 4 ''expat'' None None None [(''contact_phone'', ''0772222222'')]]"

text \<open>
  A run in which the store raises nothing; the owner a phone lookup returns; the row an
  insert adds; the link table and the calls after the upserts of a group.
\<close>

definition no_faults :: "world \<Rightarrow> bool" where
  "no_faults w \<longleftrightarrow> (\<forall>n. faults w n = None)"



definition links_after :: "nat \<Rightarrow> match_type \<Rightarrow> listing list \<Rightarrow> owner_listing list \<Rightarrow> owner_listing list" where
  "links_after i mt ls rows = foldl (\<lambda>t l. upsert_row (link_data i mt l) t) rows ls"


text \<open>The counters after a group that raised nothing (lines 236 to 238).\<close>

definition counted :: "owner_group \<Rightarrow> stats \<Rightarrow> stats" where
  "counted g st =
     st\<lparr>total_owners := total_owners st + 1,
        multi_property :=
          (if length (listings g) > 1 then multi_property st + 1 else multi_property st)\<rparr>"





definition derived :: "owner_data \<Rightarrow> owner_data" where
  "derived d = d\<lparr>last_seen_at := 0, first_seen_at := None\<rparr>"

text \<open>
  The reconciler seen on the tables alone, for a run in which the store raises nothing:
  the owner table as pairs of id and clock-independent fields, the link table and the next
  id. \<open>abs_step\<close> is what one group does to them, \<open>abs_run\<close> what a list of groups does.
\<close>

type_synonym owner_table = "(nat \<times> owner_data) list"

type_synonym tables = "owner_table \<times> owner_listing list \<times> nat"


fun owner_of :: "string \<Rightarrow> owner_table \<Rightarrow> nat option" where
  "owner_of p [] = None"
| "owner_of p ((i, f) # T) = (if primary_phone f = Some p then Some i else owner_of p T)"

definition abs_lookup :: "owner_group \<Rightarrow> owner_table \<Rightarrow> nat option" where
  "abs_lookup g T =
     (if match_type g = Phone \<and> group_identifier g \<noteq> [] then owner_of (group_identifier g) T
      else None)"

definition group_fields :: "owner_group \<Rightarrow> owner_data" where
  "group_fields g = derived (build_owner_data g 0)"

definition abs_step :: "owner_group \<Rightarrow> tables \<Rightarrow> tables" where
  "abs_step g s =
     (case s of (T, L, N) \<Rightarrow>
        (case abs_lookup g T of
           Some j \<Rightarrow>
             (map (\<lambda>x. if fst x = j then (j, group_fields g) else x) T,
              links_after j (match_type g) (listings g) L, N)
         | None \<Rightarrow>
             (T @ [(N, group_fields g)],
              links_after N (match_type g) (listings g) L, Suc N)))"

definition abs_run :: "owner_group list \<Rightarrow> tables \<Rightarrow> tables" where
  "abs_run gs s = foldl (\<lambda>s g. abs_step g s) s gs"




















section \<open>The phone normalizer and its specification\<close>










section \<open>The signal extractor\<close>

lemma normalize_phone_Nil: "normalize_phone [] = None"
  by (simp add: normalize_phone_def)

lemma try_phone_fields_first:
  "try_phone_fields rd fs = Some p \<longleftrightarrow>
     (\<exists>i < length fs.
        (case rd (fs ! i) of None \<Rightarrow> None | Some v \<Rightarrow> normalize_phone v) = Some p
        \<and> (\<forall>j < i. (case rd (fs ! j) of None \<Rightarrow> None | Some v \<Rightarrow> normalize_phone v) = None))"
proof (induction fs)
  case Nil
  then show ?case by simp
next
  case (Cons f fs)
  let ?r = "\<lambda>g. case rd g of None \<Rightarrow> None | Some v \<Rightarrow> normalize_phone v"
  have step: "try_phone_fields rd (f # fs) =
      (case ?r f of Some n \<Rightarrow> Some n | None \<Rightarrow> try_phone_fields rd fs)"
    by (auto simp: normalize_phone_Nil split: option.splits)
  show ?case
  proof (cases "?r f")
    case None
    have "(\<exists>i < length (f # fs). ?r ((f # fs) ! i) = Some p \<and> (\<forall>j < i. ?r ((f # fs) ! j) = None))
        \<longleftrightarrow> (\<exists>i < length fs. ?r (fs ! i) = Some p \<and> (\<forall>j < i. ?r (fs ! j) = None))"
      (is "?L \<longleftrightarrow> ?R")
    proof
      assume ?L
      then obtain i where i: "i < length (f # fs)" "?r ((f # fs) ! i) = Some p"
        "\<forall>j < i. ?r ((f # fs) ! j) = None" by blast
      from i(2) None obtain k where k: "i = Suc k" by (cases i) auto
      with i have "k < length fs" "?r (fs ! k) = Some p" by auto
      moreover have "\<forall>j < k. ?r (fs ! j) = None"
      proof (intro allI impI)
        fix j assume "j < k"
        then have "Suc j < i" using k by simp
        with i(3) have "?r ((f # fs) ! Suc j) = None" by blast
        then show "?r (fs ! j) = None" by simp
      qed
      ultimately show ?R by blast
    next
      assume ?R
      then obtain i where i: "i < length fs" "?r (fs ! i) = Some p"
        "\<forall>j < i. ?r (fs ! j) = None" by blast
      have "\<forall>j < Suc i. ?r ((f # fs) ! j) = None"
      proof (intro allI impI)
        fix j assume "j < Suc i"
        then show "?r ((f # fs) ! j) = None"
          using None i(3) by (cases j) auto
      qed
      with i(1,2) show ?L by (intro exI [of _ "Suc i"]) simp
    qed
    with None step Cons.IH show ?thesis by simp
  next
    case (Some n)
    have "(\<exists>i < length (f # fs). ?r ((f # fs) ! i) = Some p \<and> (\<forall>j < i. ?r ((f # fs) ! j) = None))
        \<longleftrightarrow> n = p" (is "?L \<longleftrightarrow> _")
    proof
      assume ?L
      then obtain i where i: "i < length (f # fs)" "?r ((f # fs) ! i) = Some p"
        "\<forall>j < i. ?r ((f # fs) ! j) = None" by blast
      have "i = 0"
      proof (rule ccontr)
        assume "i \<noteq> 0"
        then have "0 < i" by simp
        with i(3) have "?r ((f # fs) ! 0) = None" by blast
        with Some show False by simp
      qed
      with i(2) Some show "n = p" by simp
    next
      assume "n = p"
      with Some show ?L by (intro exI [of _ 0]) simp
    qed
    with Some step show ?thesis by simp
  qed
qed

text \<open>
  Claim C3. A listing yields at most one phone signal (the result is an option): the first
  valid normalizer result when the fields \<open>phone\<close>, \<open>phoneNumber\<close>, \<open>whatsapp\<close>,
  \<open>contact_phone\<close> of \<^verbatim>\<open>raw_data\<close> are tried in that order, so that no field after the first
  valid one matters. It yields a host-id signal if and only if its \<open>host_id\<close> is non-empty
  and its platform is one of exactly two platforms, \<open>airbnb\<close> and \<open>booking\<close>.
\<close>

theorem signal_extractor:
  "(extract_phone_from_listing l = Some p \<longleftrightarrow>
      (\<exists>i < length phone_fields.
         field_signal l (phone_fields ! i) = Some p
         \<and> (\<forall>j < i. field_signal l (phone_fields ! j) = None)))
   \<and> phone_fields = [''phone'', ''phoneNumber'', ''whatsapp'', ''contact_phone'']
   \<and> (host_id_key l = Some k \<longleftrightarrow>
        (\<exists>hid pf. host_id l = Some hid \<and> hid \<noteq> [] \<and> platform l = Some pf
           \<and> pf \<in> {''airbnb'', ''booking''} \<and> k = pf @ '':'' @ hid))
   \<and> card {''airbnb'', ''booking''} = 2"
proof -
  have a: "extract_phone_from_listing l = Some p \<longleftrightarrow>
      (\<exists>i < length phone_fields.
         field_signal l (phone_fields ! i) = Some p
         \<and> (\<forall>j < i. field_signal l (phone_fields ! j) = None))"
  proof (cases "raw_data l")
    case None
    then show ?thesis
      by (simp add: extract_phone_from_listing_def field_signal_def phone_fields_def)
  next
    case (Some rd)
    then show ?thesis
      by (simp add: extract_phone_from_listing_def field_signal_def try_phone_fields_first)
  qed
  have b: "host_id_key l = Some k \<longleftrightarrow>
        (\<exists>hid pf. host_id l = Some hid \<and> hid \<noteq> [] \<and> platform l = Some pf
           \<and> pf \<in> {''airbnb'', ''booking''} \<and> k = pf @ '':'' @ hid)"
    by (auto simp: host_id_key_def host_platforms_def split: option.splits)
  have c: "card {''airbnb'', ''booking''} = 2" by simp
  from a b c show ?thesis by (simp add: phone_fields_def)
qed

theorem signal_extractor_witness:
  "extract_phone_from_listing
     \<lparr>listing_id = 7, platform = Some ''booking'', host_id = Some ''h9'', host_name = None,
      price = None,
      raw_data = Some [''phone'' \<mapsto> ''123'', ''phoneNumber'' \<mapsto> ''77 123 45 67'',
                       ''whatsapp'' \<mapsto> ''+221 70 000 00 00''],
      is_active = True\<rparr> = Some ''+221771234567''
   \<and> host_id_key
     \<lparr>listing_id = 7, platform = Some ''booking'', host_id = Some ''h9'', host_name = None,
      price = None,
      raw_data = Some [''phone'' \<mapsto> ''123'', ''phoneNumber'' \<mapsto> ''77 123 45 67'',
                       ''whatsapp'' \<mapsto> ''+221 70 000 00 00''],
      is_active = True\<rparr> = Some ''booking:h9''"
proof -
  let ?L = "\<lparr>listing_id = 7, platform = Some ''booking'', host_id = Some ''h9'', host_name = None,
      price = None,
      raw_data = Some [''phone'' \<mapsto> ''123'', ''phoneNumber'' \<mapsto> ''77 123 45 67'',
                       ''whatsapp'' \<mapsto> ''+221 70 000 00 00''],
      is_active = True\<rparr>"
  have f0: "field_signal ?L ''phone'' = None"
    by (simp add: field_signal_def normalize_phone_def isdigit_def startswith_def)
  have f1: "field_signal ?L ''phoneNumber'' = Some ''+221771234567''"
    by (simp add: field_signal_def normalize_phone_def isdigit_def startswith_def)
  have "\<forall>j < Suc 0. field_signal ?L (phone_fields ! j) = None"
    using f0 by (simp add: phone_fields_def)
  moreover have "field_signal ?L (phone_fields ! Suc 0) = Some ''+221771234567''"
    using f1 by (simp add: phone_fields_def)
  moreover have "Suc 0 < length phone_fields" by (simp add: phone_fields_def)
  ultimately have ex: "\<exists>i < length phone_fields.
      field_signal ?L (phone_fields ! i) = Some ''+221771234567''
      \<and> (\<forall>j < i. field_signal ?L (phone_fields ! j) = None)"
    by blast
  have hk: "\<exists>hid pf. host_id ?L = Some hid \<and> hid \<noteq> [] \<and> platform ?L = Some pf
      \<and> pf \<in> {''airbnb'', ''booking''} \<and> ''booking:h9'' = pf @ '':'' @ hid"
    by simp
  from ex hk show ?thesis
    using signal_extractor [of ?L "''+221771234567''" "''booking:h9''"] by blast
qed

section \<open>The cluster builder\<close>

lemma dd_append_mset:
  "mset (concat (map snd (dd_append k v g))) = add_mset v (mset (concat (map snd g)))"
  by (induction k v g rule: dd_append.induct) auto

lemma dd_append_nonempty:
  "\<forall>kv \<in> set g. snd kv \<noteq> [] \<Longrightarrow> \<forall>kv \<in> set (dd_append k v g). snd kv \<noteq> []"
  by (induction k v g rule: dd_append.induct) auto

lemma dd_append_keys: "fst ` set (dd_append k v g) = insert k (fst ` set g)"
  by (induction k v g rule: dd_append.induct) auto

lemma dd_append_distinct: "distinct (map fst g) \<Longrightarrow> distinct (map fst (dd_append k v g))"
  by (induction k v g rule: dd_append.induct) (auto simp: dd_append_keys)

lemma dd_append_members:
  "\<forall>kv \<in> set g. \<forall>x \<in> set (snd kv). f x = Some (fst kv) \<Longrightarrow> f v = Some k \<Longrightarrow>
   \<forall>kv \<in> set (dd_append k v g). \<forall>x \<in> set (snd kv). f x = Some (fst kv)"
  by (induction k v g rule: dd_append.induct) auto

lemma groups_ok_dd_append:
  "groups_ok f g \<Longrightarrow> f v = Some k \<Longrightarrow> groups_ok f (dd_append k v g)"
  unfolding groups_ok_def
  using dd_append_distinct [of g k v] dd_append_nonempty [of g k v] dd_append_members [of g f v k]
  by blast

lemma foldl_group_step:
  "foldl group_step (bp, bh) ls = (bp', bh') \<Longrightarrow>
   mset (concat (map snd bp')) =
     mset (concat (map snd bp)) + mset (filter (\<lambda>l. extract_phone_from_listing l \<noteq> None) ls)
   \<and> mset (concat (map snd bh')) =
     mset (concat (map snd bh)) + mset (filter (\<lambda>l. host_id_key l \<noteq> None) ls)
   \<and> (groups_ok extract_phone_from_listing bp \<longrightarrow> groups_ok extract_phone_from_listing bp')
   \<and> (groups_ok host_id_key bh \<longrightarrow> groups_ok host_id_key bh')"
proof (induction ls arbitrary: bp bh)
  case Nil
  then show ?case by simp
next
  case (Cons l ls)
  obtain bp1 bh1 where s: "group_step (bp, bh) l = (bp1, bh1)" by (cases "group_step (bp, bh) l")
  with Cons.prems have f: "foldl group_step (bp1, bh1) ls = (bp', bh')" by simp
  note IH = Cons.IH [OF f]
  have p1: "mset (concat (map snd bp1)) =
      mset (concat (map snd bp)) + mset (filter (\<lambda>l. extract_phone_from_listing l \<noteq> None) [l])"
    using s by (auto simp: group_step_def dd_append_mset split: option.splits)
  have h1: "mset (concat (map snd bh1)) =
      mset (concat (map snd bh)) + mset (filter (\<lambda>l. host_id_key l \<noteq> None) [l])"
    using s by (auto simp: group_step_def dd_append_mset split: option.splits)
  have g1: "groups_ok extract_phone_from_listing bp \<Longrightarrow> groups_ok extract_phone_from_listing bp1"
    using s by (auto simp: group_step_def groups_ok_dd_append split: option.splits)
  have g2: "groups_ok host_id_key bh \<Longrightarrow> groups_ok host_id_key bh1"
    using s by (auto simp: group_step_def groups_ok_dd_append split: option.splits)
  from IH p1 h1 g1 g2 show ?case by (auto simp: ac_simps)
qed

lemma group_listings_props:
  assumes "group_listings ls = (bp, bh)"
  shows "mset (concat (map snd bp)) = mset (filter (\<lambda>l. extract_phone_from_listing l \<noteq> None) ls)"
    and "mset (concat (map snd bh)) = mset (filter (\<lambda>l. host_id_key l \<noteq> None) ls)"
    and "groups_ok extract_phone_from_listing bp"
    and "groups_ok host_id_key bh"
  using foldl_group_step [of "[]" "[]" ls bp bh] assms
  by (simp_all add: group_listings_def groups_ok_def)

lemma distinct_ids_of_mset:
  assumes "mset xs = mset (filter P ls)" "distinct (map listing_id ls)"
  shows "distinct (map listing_id xs)"
proof -
  have "mset (map listing_id xs) = mset (map listing_id (filter P ls))"
    using assms(1) by (metis mset_map)
  moreover have "distinct (map listing_id (filter P ls))"
    using assms(2) by (rule distinct_map_filter)
  ultimately show ?thesis by (metis mset_eq_imp_distinct_iff)
qed

lemma process_phone_groups_eq:
  "\<forall>kv \<in> set g. snd kv \<noteq> [] \<Longrightarrow>
   process_phone_groups g (ogs, pr) =
     (ogs @ map phone_group g, pr \<union> set (map listing_id (concat (map snd g))))"
proof (induction g arbitrary: ogs pr)
  case Nil
  then show ?case by simp
next
  case (Cons kv g)
  obtain k vs where kv: "kv = (k, vs)" by (cases kv)
  with Cons.prems have ne: "vs \<noteq> []" and rest: "\<forall>kv \<in> set g. snd kv \<noteq> []" by auto
  from ne have len: "1 \<le> length vs" by (cases vs) auto
  show ?case
    using Cons.IH [OF rest] len kv
    by (simp add: Let_def phone_group_def Un_assoc)
qed

lemma filter_ids_new:
  "map listing_id (filter (\<lambda>l. listing_id l \<in> set (filter Q (map listing_id ls))) ls)
     = filter Q (map listing_id ls)"
proof -
  have "filter (\<lambda>l. listing_id l \<in> set (filter Q (map listing_id ls))) ls
      = filter (Q \<circ> listing_id) ls"
    by (rule filter_cong) auto
  then show ?thesis by (simp add: filter_map)
qed

lemma host_group_of_mono:
  assumes "host_group_of pr' g h" "pr \<subseteq> pr'"
  shows "host_group_of pr (kv # g) h"
proof -
  from assms have "set (listing_ids h) \<inter> pr = {}"
    unfolding host_group_of_def by blast
  moreover from assms(1) have
    "\<exists>e \<in> set (kv # g). group_identifier h = fst e \<and> set (listings h) \<subseteq> set (snd e)"
    unfolding host_group_of_def by (metis list.set_intros(2))
  ultimately show ?thesis
    using assms(1) unfolding host_group_of_def by blast
qed

lemma process_host_groups_props:
  assumes "\<forall>kv \<in> set g. distinct (map listing_id (snd kv))"
    and "distinct (concat (map listing_ids ogs))"
    and "set (concat (map listing_ids ogs)) \<subseteq> pr"
  shows "\<exists>hs. fst (process_host_groups g (ogs, pr)) = ogs @ hs
           \<and> distinct (concat (map listing_ids (ogs @ hs)))
           \<and> (\<forall>h \<in> set hs. host_group_of pr g h)"
  using assms
proof (induction g arbitrary: ogs pr)
  case Nil
  then show ?case by simp
next
  case (Cons kv g)
  obtain k vs where kv: "kv = (k, vs)" by (cases kv)
  let ?ids = "map listing_id vs"
  let ?new = "filter (\<lambda>lid. lid \<notin> pr) ?ids"
  let ?nl = "filter (\<lambda>l. listing_id l \<in> set ?new) vs"
  from Cons.prems(1) kv have dvs: "distinct ?ids"
    and rest: "\<forall>kv \<in> set g. distinct (map listing_id (snd kv))"
    by auto
  have nl_ids: "map listing_id ?nl = ?new" by (rule filter_ids_new)
  show ?case
  proof (cases "?new = []")
    case True
    then have step: "process_host_groups (kv # g) (ogs, pr) = process_host_groups g (ogs, pr)"
      using kv by (simp add: Let_def)
    from Cons.IH [OF rest Cons.prems(2,3)] obtain hs where hs:
      "fst (process_host_groups g (ogs, pr)) = ogs @ hs"
      "distinct (concat (map listing_ids (ogs @ hs)))"
      "\<forall>h \<in> set hs. host_group_of pr g h"
      by blast
    from hs(3) have "\<forall>h \<in> set hs. host_group_of pr (kv # g) h"
      using host_group_of_mono [of pr g _ pr kv] by blast
    with hs(1,2) step show ?thesis by auto
  next
    case False
    then have nlne: "?nl \<noteq> []" using nl_ids by (metis map_is_Nil_conv)
    let ?h = "\<lparr>match_type = HostId, group_identifier = k, listings = ?nl, listing_ids = ?new\<rparr>"
    have step: "process_host_groups (kv # g) (ogs, pr) =
        process_host_groups g (ogs @ [?h], pr \<union> set ?new)"
      using kv False nlne by (simp add: Let_def)
    have d: "distinct (concat (map listing_ids (ogs @ [?h])))"
      using Cons.prems(2,3) dvs by (auto simp: distinct_map_filter)
    have s: "set (concat (map listing_ids (ogs @ [?h]))) \<subseteq> pr \<union> set ?new"
      using Cons.prems(3) by auto
    from Cons.IH [OF rest d s] obtain hs where hs:
      "fst (process_host_groups g (ogs @ [?h], pr \<union> set ?new)) = (ogs @ [?h]) @ hs"
      "distinct (concat (map listing_ids ((ogs @ [?h]) @ hs)))"
      "\<forall>h \<in> set hs. host_group_of (pr \<union> set ?new) g h"
      by blast
    have h0: "host_group_of pr (kv # g) ?h"
      unfolding host_group_of_def using False nl_ids kv by auto
    have "\<forall>h \<in> set (?h # hs). host_group_of pr (kv # g) h"
      using h0 hs(3) host_group_of_mono [of "pr \<union> set ?new" g _ pr kv] by auto
    with hs(1,2) step show ?thesis
      by (intro exI [of _ "?h # hs"]) simp
  qed
qed

lemma phone_group_ok:
  "groups_ok extract_phone_from_listing g \<Longrightarrow> kv \<in> set g \<Longrightarrow> phone_cluster_ok (phone_group kv)"
  unfolding groups_ok_def phone_cluster_ok_def phone_group_def by auto

lemma host_group_of_ok:
  assumes "groups_ok host_id_key g" "host_group_of pr g h"
  shows "host_cluster_ok h"
proof -
  from assms(2) obtain kv where kv: "kv \<in> set g" "group_identifier h = fst kv"
    "set (listings h) \<subseteq> set (snd kv)"
    unfolding host_group_of_def by blast
  from assms(1) kv(1) have "\<forall>x \<in> set (snd kv). host_id_key x = Some (fst kv)"
    unfolding groups_ok_def by blast
  with kv(2,3) have "\<forall>l \<in> set (listings h). host_id_key l = Some (group_identifier h)"
    by auto
  with assms(2) show ?thesis
    unfolding host_group_of_def host_cluster_ok_def by blast
qed

lemma concat_ids_phone_groups:
  "concat (map listing_ids (map phone_group g)) = map listing_id (concat (map snd g))"
  by (induction g) (auto simp: phone_group_def)

lemma build_owner_groups_split:
  assumes "distinct (map listing_id ls)"
  shows "\<exists>ps hs. build_owner_groups ls = ps @ hs
           \<and> distinct (concat (map listing_ids (ps @ hs)))
           \<and> distinct (map group_identifier ps)
           \<and> (\<forall>p \<in> set ps. phone_cluster_ok p)
           \<and> (\<forall>h \<in> set hs. host_cluster_ok h
                 \<and> set (listing_ids h) \<inter> set (concat (map listing_ids ps)) = {})
           \<and> set (concat (map listings ps)) = {l \<in> set ls. extract_phone_from_listing l \<noteq> None}"
proof -
  obtain bp bh where g: "group_listings ls = (bp, bh)" by (cases "group_listings ls")
  note gp = group_listings_props [OF g]
  let ?ps = "map phone_group bp"
  let ?pr = "set (map listing_id (concat (map snd bp)))"
  have ne: "\<forall>kv \<in> set bp. snd kv \<noteq> []" using gp(3) unfolding groups_ok_def by blast
  have ph: "process_phone_groups bp ([], {}) = (?ps, ?pr)"
    using process_phone_groups_eq [OF ne, of "[]" "{}"] by simp
  have dp: "distinct (concat (map listing_ids ?ps))"
    unfolding concat_ids_phone_groups using gp(1) assms by (rule distinct_ids_of_mset)
  have sp: "set (concat (map listing_ids ?ps)) \<subseteq> ?pr"
    unfolding concat_ids_phone_groups by simp
  have dh: "\<forall>kv \<in> set bh. distinct (map listing_id (snd kv))"
  proof
    fix kv assume kv: "kv \<in> set bh"
    have "distinct (map listing_id (concat (map snd bh)))"
      using gp(2) assms by (rule distinct_ids_of_mset)
    then have "distinct (concat (map (map listing_id) (map snd bh)))"
      by (simp add: map_concat)
    then have "\<forall>ys \<in> set (map (map listing_id) (map snd bh)). distinct ys"
      using distinct_concat_iff by blast
    with kv show "distinct (map listing_id (snd kv))" by auto
  qed
  from process_host_groups_props [OF dh dp sp] obtain hs where hs:
    "fst (process_host_groups bh (?ps, ?pr)) = ?ps @ hs"
    "distinct (concat (map listing_ids (?ps @ hs)))"
    "\<forall>h \<in> set hs. host_group_of ?pr bh h"
    by blast
  have b: "build_owner_groups ls = ?ps @ hs"
    using g ph hs(1) by (simp add: build_owner_groups_def)
  have keys: "distinct (map group_identifier ?ps)"
  proof -
    have "map group_identifier ?ps = map fst bp" by (simp add: phone_group_def comp_def)
    moreover from gp(3) have "distinct (map fst bp)" unfolding groups_ok_def by blast
    ultimately show ?thesis by metis
  qed
  have pok: "\<forall>p \<in> set ?ps. phone_cluster_ok p"
    using phone_group_ok [OF gp(3)] by auto
  have hok: "\<forall>h \<in> set hs. host_cluster_ok h
      \<and> set (listing_ids h) \<inter> set (concat (map listing_ids ?ps)) = {}"
  proof
    fix h assume h: "h \<in> set hs"
    with hs(3) have hg: "host_group_of ?pr bh h" by blast
    then have "set (listing_ids h) \<inter> ?pr = {}" unfolding host_group_of_def by blast
    with sp have "set (listing_ids h) \<inter> set (concat (map listing_ids ?ps)) = {}" by blast
    with host_group_of_ok [OF gp(4) hg]
    show "host_cluster_ok h \<and> set (listing_ids h) \<inter> set (concat (map listing_ids ?ps)) = {}"
      by simp
  qed
  have mem: "set (concat (map listings ?ps)) = {l \<in> set ls. extract_phone_from_listing l \<noteq> None}"
  proof -
    have "concat (map listings ?ps) = concat (map snd bp)"
      by (simp add: phone_group_def comp_def)
    moreover have "set (concat (map snd bp)) = set (filter (\<lambda>l. extract_phone_from_listing l \<noteq> None) ls)"
      using gp(1) by (rule mset_eq_setD)
    ultimately show ?thesis by simp
  qed
  from b hs(2) keys pok hok mem show ?thesis by blast
qed

text \<open>
  Claim C4. Two listings \<open>A\<close> (a valid phone signal, host id \<open>h\<close> on airbnb) and \<open>B\<close> (no
  phone signal, the same host id on airbnb), in either order, give exactly two clusters: a
  phone cluster holding only \<open>A\<close> and a host-id cluster holding only \<open>B\<close>.
\<close>

theorem two_listings_clusters:
  assumes "extract_phone_from_listing A = Some p" "extract_phone_from_listing B = None"
    and "platform A = Some ''airbnb''" "platform B = Some ''airbnb''"
    and "host_id A = Some h" "host_id B = Some h" "h \<noteq> []"
    and "listing_id A \<noteq> listing_id B"
  shows "build_owner_groups [A, B] =
           [\<lparr>match_type = Phone, group_identifier = p, listings = [A], listing_ids = [listing_id A]\<rparr>,
            \<lparr>match_type = HostId, group_identifier = ''airbnb:'' @ h, listings = [B],
              listing_ids = [listing_id B]\<rparr>]
         \<and> build_owner_groups [B, A] =
           [\<lparr>match_type = Phone, group_identifier = p, listings = [A], listing_ids = [listing_id A]\<rparr>,
            \<lparr>match_type = HostId, group_identifier = ''airbnb:'' @ h, listings = [B],
              listing_ids = [listing_id B]\<rparr>]"
proof -
  have k: "host_id_key A = Some (''airbnb:'' @ h)" "host_id_key B = Some (''airbnb:'' @ h)"
    using assms by (simp_all add: host_id_key_def host_platforms_def)
  show ?thesis
    using assms k by (simp add: build_owner_groups_def group_listings_def group_step_def Let_def)
qed

theorem two_listings_clusters_witness:
  "build_owner_groups
     [\<lparr>listing_id = 1, platform = Some ''airbnb'', host_id = Some ''h1'', host_name = None,
       price = None, raw_data = Some [''phone'' \<mapsto> ''+221771111111''], is_active = True\<rparr>,
      \<lparr>listing_id = 2, platform = Some ''airbnb'', host_id = Some ''h1'', host_name = None,
       price = None, raw_data = None, is_active = True\<rparr>]
   = [\<lparr>match_type = Phone, group_identifier = ''+221771111111'',
       listings = [\<lparr>listing_id = 1, platform = Some ''airbnb'', host_id = Some ''h1'',
                    host_name = None, price = None,
                    raw_data = Some [''phone'' \<mapsto> ''+221771111111''], is_active = True\<rparr>],
       listing_ids = [1]\<rparr>,
      \<lparr>match_type = HostId, group_identifier = ''airbnb:h1'',
       listings = [\<lparr>listing_id = 2, platform = Some ''airbnb'', host_id = Some ''h1'',
                    host_name = None, price = None, raw_data = None, is_active = True\<rparr>],
       listing_ids = [2]\<rparr>]"
proof -
  let ?A = "\<lparr>listing_id = 1, platform = Some ''airbnb'', host_id = Some ''h1'', host_name = None,
       price = None, raw_data = Some [''phone'' \<mapsto> ''+221771111111''], is_active = True\<rparr>"
  let ?B = "\<lparr>listing_id = 2, platform = Some ''airbnb'', host_id = Some ''h1'', host_name = None,
       price = None, raw_data = None, is_active = True\<rparr>"
  have a: "extract_phone_from_listing ?A = Some ''+221771111111''"
    by (simp add: extract_phone_from_listing_def phone_fields_def normalize_phone_def
        isdigit_def startswith_def)
  have b: "extract_phone_from_listing ?B = None"
    by (simp add: extract_phone_from_listing_def phone_fields_def)
  show ?thesis
    using two_listings_clusters [of ?A "''+221771111111''" ?B "''h1''", OF a b] by simp
qed

section \<open>The owner aggregator\<close>

lemma ilog2_bounds: "0 < n \<Longrightarrow> 2 ^ ilog2 n \<le> n \<and> n < 2 * 2 ^ ilog2 n"
proof (induction n rule: ilog2.induct)
  case (1 n)
  show ?case
  proof (cases "n < 2")
    case True
    with 1(2) show ?thesis by (simp add: ilog2.simps [of n])
  next
    case False
    then have "0 < n div 2" by simp
    with 1(1) False have IH: "2 ^ ilog2 (n div 2) \<le> n div 2 \<and> n div 2 < 2 * 2 ^ ilog2 (n div 2)"
      by simp
    have e: "ilog2 n = Suc (ilog2 (n div 2))" using False by (simp add: ilog2.simps [of n])
    from IH show ?thesis unfolding e by simp linarith
  qed
qed

lemma ilog2_unique:
  assumes "2 ^ k \<le> n" "n < 2 * 2 ^ k"
  shows "ilog2 n = k"
proof -
  from assms have n: "0 < n" by (metis less_le_trans zero_less_numeral zero_less_power)
  note b = ilog2_bounds [OF n]
  have "(2::nat) ^ k < 2 ^ Suc (ilog2 n)" using assms(1) b by simp
  then have 1: "k < Suc (ilog2 n)" by (simp only: power_strict_increasing_iff [of 2])
  have "(2::nat) ^ ilog2 n < 2 ^ Suc k" using assms(2) b by simp
  then have 2: "ilog2 n < Suc k" by (simp only: power_strict_increasing_iff [of 2])
  from 1 2 show ?thesis by simp
qed

lemma round_half_even_ge: "\<lfloor>y\<rfloor> \<le> round_half_even y"
  by (simp add: round_half_even_def Let_def)

lemma round_half_even_less:
  assumes "y < of_int N - 1 / 2"
  shows "round_half_even y < N"
proof -
  let ?n = "\<lfloor>y\<rfloor>"
  have f: "of_int ?n \<le> y" by simp
  show ?thesis
  proof (cases "y - of_int ?n < 1 / 2")
    case True
    then have "round_half_even y = ?n" by (simp add: round_half_even_def Let_def)
    moreover have "(of_int ?n :: rat) < of_int N" using f assms by linarith
    ultimately show ?thesis by simp
  next
    case False
    then have "round_half_even y \<le> ?n + 1" by (simp add: round_half_even_def Let_def)
    moreover have "(of_int (?n + 1) :: rat) < of_int N" using False assms by simp
    then have "?n + 1 < N" by (simp only: of_int_less_iff)
    ultimately show ?thesis by linarith
  qed
qed

lemma pow2_nat: "pow2 (int k) = 2 ^ k"
  by (simp add: pow2_def)

lemma pow2_neg: "pow2 (- int k) = 1 / 2 ^ k"
  by (cases "k = 0") (simp_all add: pow2_def)

lemma int_truediv_small:
  assumes b: "0 < b" and ba: "b \<le> a" and a: "a < 2 ^ 53"
  shows "int_truediv a b = a div b"
proof -
  define x :: rat where "x = of_int a / of_int b"
  define q where "q = a div b"
  define r where "r = a mod b"
  have ab: "a = q * b + r" by (simp add: q_def r_def)
  have r: "0 \<le> r" "r < b" using b by (simp_all add: r_def)
  have x1: "1 \<le> x" using b ba by (simp add: x_def)
  have fl: "\<lfloor>x\<rfloor> = q" unfolding x_def q_def by (simp add: floor_divide_of_int_eq)
  have "1 \<le> \<lfloor>x\<rfloor>" using x1 by (simp only: le_floor_iff of_int_1)
  then have q1: "1 \<le> q" by (simp only: fl)
  have qa: "q * b \<le> a" using ab r by simp
  define e where "e = ilog2 (nat q)"
  have "2 ^ e \<le> nat q \<and> nat q < 2 * 2 ^ e"
    unfolding e_def using q1 by (intro ilog2_bounds) simp
  then have eb: "2 ^ e \<le> q" "q < 2 * 2 ^ e"
    using q1 by (simp_all add: le_nat_iff nat_less_iff)
  have "(2::int) ^ e * 1 \<le> q * b" using eb(1) b q1 by (intro mult_mono) simp_all
  with qa a have "(2::int) ^ e < 2 ^ 53" by simp
  then have e52: "e < 53" by (simp only: power_strict_increasing_iff [of 2]) 
  define k where "k = 52 - e"
  have ke: "e + k = 52" using e52 by (simp add: k_def)
  have fe: "float_exponent \<bar>x\<bar> = int e"
    using x1 fl by (simp add: float_exponent_def e_def)
  have p1: "pow2 (52 - int e) = 2 ^ k"
    using pow2_nat [of k] ke by (simp add: k_def of_nat_diff)
  have p2: "pow2 (int e - 52) = 1 / 2 ^ k"
    using pow2_neg [of k] ke by (simp add: k_def of_nat_diff)
  define m where "m = round_half_even (x * 2 ^ k)"
  have x0: "x \<noteq> 0" using x1 by simp
  have fr: "float_round x = of_int m / 2 ^ k"
    using x0 by (simp add: float_round_def fe p1 p2 m_def Let_def)
  have "b * 2 ^ e \<le> b * q" using eb(1) b by (intro mult_left_mono) simp_all
  with qa a have "b * 2 ^ e < 2 ^ 53" by (simp add: mult.commute)
  also have "(2::int) ^ 53 = 2 * 2 ^ k * 2 ^ e"
  proof -
    have "Suc (k + e) = 53" using ke by simp
    then have "(2::int) ^ 53 = 2 ^ Suc (k + e)" by (simp only:)
    then show ?thesis by (simp only: power_Suc power_add mult.assoc)
  qed
  finally have "b * 2 ^ e < (2 * 2 ^ k) * 2 ^ e" .
  then have bk: "b < 2 * 2 ^ k" by (simp only: mult_less_cancel_right) simp
  have lo: "q * 2 ^ k \<le> m"
  proof -
    have "of_int q \<le> x" using of_int_floor_le [of x] by (simp only: fl)
    then have "(of_int (q * 2 ^ k) :: rat) \<le> x * 2 ^ k" by simp
    then have "q * 2 ^ k \<le> \<lfloor>x * 2 ^ k\<rfloor>" by (simp only: le_floor_iff)
    with round_half_even_ge [of "x * 2 ^ k"] show ?thesis unfolding m_def by linarith
  qed
  have hi: "m < (q + 1) * 2 ^ k"
  proof -
    have bp: "(0::rat) < of_int b" using b by simp
    have "a + 1 \<le> (q + 1) * b" using ab r by (simp add: algebra_simps)
    then have "2 * (a + 1) * 2 ^ k \<le> 2 * ((q + 1) * b) * 2 ^ k" by simp
    moreover have "b < 2 * 2 ^ k" by (rule bk)
    ultimately have i: "2 * a * 2 ^ k + b < 2 * (q + 1) * 2 ^ k * b"
      by (simp add: algebra_simps)
    have "(of_int (2 * a * 2 ^ k + b) :: rat) < of_int (2 * (q + 1) * 2 ^ k * b)"
      using i by (simp only: of_int_less_iff)
    then have "2 * of_int a * 2 ^ k + of_int b < 2 * of_int ((q + 1) * 2 ^ k) * (of_int b :: rat)"
      by (simp add: algebra_simps)
    then have "2 * (of_int a / of_int b) * 2 ^ k + 1 < 2 * (of_int ((q + 1) * 2 ^ k) :: rat)"
      using bp by (simp add: field_simps)
    then have "x * 2 ^ k < of_int ((q + 1) * 2 ^ k) - 1 / 2"
      unfolding x_def by simp
    then show ?thesis unfolding m_def by (rule round_half_even_less)
  qed
  have "\<lfloor>(of_int m :: rat) / 2 ^ k\<rfloor> = m div 2 ^ k"
    using floor_divide_of_int_eq [of m "2 ^ k", where ?'a = rat] by simp
  also have "m div 2 ^ k = q"
    using lo hi by (intro int_div_pos_eq [where r = "m - q * 2 ^ k"]) (simp_all add: algebra_simps)
  finally have f: "\<lfloor>float_round x\<rfloor> = q" unfolding fr .
  have "0 \<le> q * 2 ^ k" using q1 by simp
  with lo have "0 \<le> m" by linarith
  then have "0 \<le> float_round x" unfolding fr by simp
  then show ?thesis
    unfolding int_truediv_def int_of_float_def x_def [symmetric] using f q_def by simp
qed

lemma foldl_collect_step_prices:
  "total_price (foldl collect_step c ls) = total_price c + sum_list (positive_prices ls)
   \<and> price_count (foldl collect_step c ls) = price_count c + length (positive_prices ls)"
proof (induction ls arbitrary: c)
  case Nil
  then show ?case by (simp add: positive_prices_def List.map_filter_simps)
next
  case (Cons l ls)
  have s: "total_price (collect_step c l) = total_price c + sum_list (positive_prices [l])
      \<and> price_count (collect_step c l) = price_count c + length (positive_prices [l])"
    by (simp add: collect_step_def positive_prices_def List.map_filter_simps Let_def
        split: option.splits)
  have a: "positive_prices (l # ls) = positive_prices [l] @ positive_prices ls"
    by (simp add: positive_prices_def List.map_filter_simps split: option.splits)
  show ?case using Cons.IH [of "collect_step c l"] s a by simp
qed

lemma collect_prices:
  "total_price (collect ls) = sum_list (positive_prices ls)"
  "price_count (collect ls) = length (positive_prices ls)"
  using foldl_collect_step_prices [of _ ls] by (simp_all add: collect_def)

lemma positive_prices_sum: "0 \<le> sum_list (positive_prices ls)"
  by (rule sum_list_nonneg) (simp add: positive_prices_def)

lemma positive_prices_count: "int (length (positive_prices ls)) \<le> sum_list (positive_prices ls)"
proof -
  have "int (length xs) \<le> sum_list xs" if "\<forall>p \<in> set xs. 0 < p" for xs :: "int list"
    using that by (induction xs) auto
  then show ?thesis by (simp add: positive_prices_def)
qed

lemma avg_price_div:
  assumes "sum_list (positive_prices ls) < 2 ^ 53"
  shows "avg_price ls =
     (if positive_prices ls = [] then 0
      else sum_list (positive_prices ls) div int (length (positive_prices ls)))"
proof (cases "positive_prices ls = []")
  case True
  then show ?thesis by (simp add: avg_price_def collect_prices)
next
  case False
  let ?t = "sum_list (positive_prices ls)"
  let ?n = "int (length (positive_prices ls))"
  have n: "0 < ?n" using False by simp
  have "int_truediv ?t ?n = ?t div ?n"
    using n positive_prices_count assms by (rule int_truediv_small)
  with False show ?thesis by (simp add: avg_price_def collect_prices Let_def)
qed

lemma avg_price_floor:
  assumes "sum_list (positive_prices ls) < 2 ^ 53"
  shows "avg_price ls = \<lfloor>spec_mean_price ls\<rfloor>"
proof (cases "positive_prices ls = []")
  case True
  then show ?thesis by (simp add: avg_price_div [OF assms] spec_mean_price_def)
next
  case False
  let ?t = "sum_list (positive_prices ls)"
  let ?n = "length (positive_prices ls)"
  have "(of_nat ?n :: rat) = of_int (int ?n)" by simp
  then have "\<lfloor>(of_int ?t :: rat) / of_nat ?n\<rfloor> = ?t div int ?n"
    by (simp only: floor_divide_of_int_eq)
  with False show ?thesis by (simp only: avg_price_div [OF assms] spec_mean_price_def if_False)
qed

lemma avg_price_exact:
  assumes "sum_list (positive_prices ls) < 2 ^ 53"
    and "int (length (positive_prices ls)) dvd sum_list (positive_prices ls)"
  shows "of_int (avg_price ls) = spec_mean_price ls"
proof (cases "positive_prices ls = []")
  case True
  then show ?thesis by (simp add: avg_price_div [OF assms(1)] spec_mean_price_def)
next
  case False
  from assms(2) obtain k where k: "sum_list (positive_prices ls) = int (length (positive_prices ls)) * k"
    by (auto elim: dvdE)
  with False show ?thesis
    by (simp add: avg_price_div [OF assms(1)] spec_mean_price_def)
qed

lemma estimated_monthly_eq: "estimated_monthly ls = avg_price ls * int (length ls) * 15"
  by (simp add: estimated_monthly_def)

lemma build_owner_data_prices:
  "avg_price_per_night (build_owner_data g now) = avg_price (listings g)"
  "estimated_monthly_revenue (build_owner_data g now) = estimated_monthly (listings g)"
  "listing_count (build_owner_data g now) = length (listings g)"
  by (simp_all add: build_owner_data_def Let_def)

text \<open>
  Where the bound of the claim below comes from: a single price of \<open>2^53 + 1\<close> is stored
  as \<open>2^53\<close>, the float nearest to it.
\<close>

lemma avg_price_beyond_bound:
  "avg_price [a_listing 1 ''expat'' None None (Some 9007199254740993) []] = 9007199254740992"
proof -
  have l: "ilog2 9007199254740993 = 53" by (rule ilog2_unique) simp_all
  have f: "\<lfloor>9007199254740993 / 2 :: rat\<rfloor> = 4503599627370496"
    by (simp add: floor_eq_iff)
  have r: "round_half_even (9007199254740993 / 2) = 4503599627370496"
    unfolding round_half_even_def Let_def f by simp
  have "int_truediv 9007199254740993 1 = 9007199254740992"
    by (simp add: int_truediv_def int_of_float_def float_round_def float_exponent_def l
        pow2_def r Let_def)
  moreover have "collect [a_listing 1 ''expat'' None None (Some 9007199254740993) []]
      = \<lparr>c_names = {}, c_platforms = {Some ''expat''}, c_host_ids = {},
         total_price = 9007199254740993, price_count = 1\<rparr>"
    by (simp add: collect_def collect_step_def a_listing_def)
  ultimately show ?thesis by (simp add: avg_price_def)
qed

text \<open>
  Claim C8, as amended. For a cluster whose positive prices sum to less than \<open>2^53\<close>, the
  average nightly price is the arithmetic mean of its members' positive prices truncated to
  an integer (0 when there is none), hence the mean itself whenever the number of positive
  prices divides their sum. For every cluster the estimated monthly revenue is the stored
  average times the number of members times 15. Three members priced 100, 150 and 50 give
  100 and 4500.
\<close>

theorem aggregator_prices:
  "(sum_list (positive_prices (listings g)) < 2 ^ 53 \<longrightarrow>
      avg_price_per_night (build_owner_data g now) = \<lfloor>spec_mean_price (listings g)\<rfloor>
      \<and> (positive_prices (listings g) = [] \<longrightarrow> avg_price_per_night (build_owner_data g now) = 0)
      \<and> (int (length (positive_prices (listings g))) dvd sum_list (positive_prices (listings g))
           \<longrightarrow> of_int (avg_price_per_night (build_owner_data g now))
                 = spec_mean_price (listings g)))
   \<and> estimated_monthly_revenue (build_owner_data g now) =
        avg_price_per_night (build_owner_data g now) * int (length (listings g)) * 15
   \<and> (map price (listings g) = [Some 100, Some 150, Some 50]
        \<longrightarrow> avg_price_per_night (build_owner_data g now) = 100
            \<and> estimated_monthly_revenue (build_owner_data g now) = 4500)"
proof -
  have ex: "avg_price (listings g) = 100 \<and> estimated_monthly (listings g) = 4500"
    if m: "map price (listings g) = [Some 100, Some 150, Some 50]"
  proof -
    from m obtain a b c where l: "listings g = [a, b, c]"
      "price a = Some 100" "price b = Some 150" "price c = Some 50"
      by (auto simp: map_eq_Cons_conv)
    then have p: "positive_prices (listings g) = [100, 150, 50]"
      by (simp add: positive_prices_def List.map_filter_simps)
    have "sum_list (positive_prices (listings g)) < 2 ^ 53" unfolding p by simp
    from avg_price_div [OF this] have "avg_price (listings g) = 100" unfolding p by simp
    with l(1) show ?thesis by (simp add: estimated_monthly_eq)
  qed
  have a: "avg_price_per_night (build_owner_data g now) = \<lfloor>spec_mean_price (listings g)\<rfloor>"
    if "sum_list (positive_prices (listings g)) < 2 ^ 53"
    using avg_price_floor [OF that] by (simp only: build_owner_data_prices)
  have z: "avg_price_per_night (build_owner_data g now) = 0"
    if "sum_list (positive_prices (listings g)) < 2 ^ 53" "positive_prices (listings g) = []"
    using avg_price_div [OF that(1)] that(2) by (simp add: build_owner_data_prices)
  have b: "of_int (avg_price_per_night (build_owner_data g now)) = spec_mean_price (listings g)"
    if "sum_list (positive_prices (listings g)) < 2 ^ 53"
      "int (length (positive_prices (listings g))) dvd sum_list (positive_prices (listings g))"
    using avg_price_exact [OF that] by (simp only: build_owner_data_prices)
  have c: "estimated_monthly_revenue (build_owner_data g now) =
        avg_price_per_night (build_owner_data g now) * int (length (listings g)) * 15"
    by (simp only: build_owner_data_prices estimated_monthly_eq)
  have d: "map price (listings g) = [Some 100, Some 150, Some 50]
        \<longrightarrow> avg_price_per_night (build_owner_data g now) = 100
            \<and> estimated_monthly_revenue (build_owner_data g now) = 4500"
    using ex by (simp only: build_owner_data_prices) blast
  from a z b c d show ?thesis by blast
qed

theorem aggregator_prices_witness:
  "sum_list (positive_prices
        [a_listing 1 ''expat'' None None (Some 100) [],
         a_listing 2 ''expat'' None None (Some 150) [],
         a_listing 3 ''expat'' None None (Some 50) []]) < 2 ^ 53
   \<and> avg_price_per_night
     (build_owner_data
        \<lparr>match_type = Phone, group_identifier = ''+221771234567'',
         listings = [a_listing 1 ''expat'' None None (Some 100) [],
                     a_listing 2 ''expat'' None None (Some 150) [],
                     a_listing 3 ''expat'' None None (Some 50) []],
         listing_ids = [1, 2, 3]\<rparr> 0) = 100
   \<and> estimated_monthly_revenue
     (build_owner_data
        \<lparr>match_type = Phone, group_identifier = ''+221771234567'',
         listings = [a_listing 1 ''expat'' None None (Some 100) [],
                     a_listing 2 ''expat'' None None (Some 150) [],
                     a_listing 3 ''expat'' None None (Some 50) []],
         listing_ids = [1, 2, 3]\<rparr> 0) = 4500
   \<and> spec_mean_price
        [a_listing 1 ''expat'' None None (Some 100) [],
         a_listing 2 ''expat'' None None (Some 150) [],
         a_listing 3 ''expat'' None None (Some 50) []] = 100"
proof -
  let ?ls = "[a_listing 1 ''expat'' None None (Some 100) [],
              a_listing 2 ''expat'' None None (Some 150) [],
              a_listing 3 ''expat'' None None (Some 50) []]"
  let ?g = "\<lparr>match_type = Phone, group_identifier = ''+221771234567'',
             listings = ?ls, listing_ids = [1, 2, 3]\<rparr>"
  have m: "map price (listings ?g) = [Some 100, Some 150, Some 50]"
    by (simp add: a_listing_def)
  have p: "positive_prices (listings ?g) = [100, 150, 50]"
    by (simp add: positive_prices_def List.map_filter_simps a_listing_def)
  have s: "sum_list (positive_prices (listings ?g)) < 2 ^ 53"
    unfolding p by simp
  have d: "int (length (positive_prices (listings ?g))) dvd sum_list (positive_prices (listings ?g))"
    unfolding p by simp
  from m s d show ?thesis
    using aggregator_prices [of ?g 0] by simp
qed

text \<open>
  Against claim C8 as first stated: two members priced 25000 and 30001 have the mean
  27500.5, and the stored average is 27500.
\<close>

theorem aggregator_mean_counterexample:
  "rat_of_int
     (avg_price_per_night
        (build_owner_data
           \<lparr>match_type = Phone, group_identifier = ''+221771234567'',
            listings = [a_listing 1 ''expat'' None None (Some 25000) [],
                        a_listing 2 ''expat'' None None (Some 30001) []],
            listing_ids = [1, 2]\<rparr> 0))
   \<noteq> spec_mean_price
        [a_listing 1 ''expat'' None None (Some 25000) [],
         a_listing 2 ''expat'' None None (Some 30001) []]"
proof -
  let ?ls = "[a_listing 1 ''expat'' None None (Some 25000) [],
              a_listing 2 ''expat'' None None (Some 30001) []]"
  have p: "positive_prices ?ls = [25000, 30001]"
    by (simp add: positive_prices_def List.map_filter_simps a_listing_def)
  have "sum_list (positive_prices ?ls) < 2 ^ 53" unfolding p by simp
  from avg_price_div [OF this] have a: "avg_price ?ls = 27500"
    unfolding p by simp
  have s: "spec_mean_price ?ls = 55001 / 2"
    unfolding spec_mean_price_def p by simp
  show ?thesis
    unfolding build_owner_data_prices owner_group.simps a s by simp
qed

section \<open>Steps of the reconciler: what they leave unchanged\<close>

lemma same_env_refl: "same_env w w"
  by (simp add: same_env_def)

lemma same_env_trans: "same_env w w1 \<Longrightarrow> same_env w1 w2 \<Longrightarrow> same_env w w2"
  unfolding same_env_def by (auto intro: prefix_order.trans)

lemma execute_env: "execute c w = (r, w') \<Longrightarrow> same_env w w'"
  by (auto simp: execute_def same_env_def)

lemma execute_error: "execute c w = (Some e, w') \<Longrightarrow> faults w (length (calls w)) = Some e"
  by (auto simp: execute_def)

lemma execute_frame:
  "execute c w = (r, w') \<Longrightarrow>
   stderr w' = stderr w \<and> owner_listings w' = owner_listings w
   \<and> detected_owners w' = detected_owners w \<and> next_owner_id w' = next_owner_id w"
  by (auto simp: execute_def)

lemma raised_env: "same_env w w' \<Longrightarrow> raised w' e \<Longrightarrow> raised w e"
  unfolding raised_def same_env_def
  by (metis prefix_length_le order_trans)

lemma execute_raised: "execute c w = (Some e, w') \<Longrightarrow> raised w e"
  unfolding raised_def using execute_error by blast

lemma datetime_now_env: "datetime_now w = (t, w') \<Longrightarrow> same_env w w'"
  by (auto simp: datetime_now_def same_env_def)

lemma datetime_now_frame:
  "datetime_now w = (t, w') \<Longrightarrow>
   stderr w' = stderr w \<and> owner_listings w' = owner_listings w
   \<and> detected_owners w' = detected_owners w \<and> next_owner_id w' = next_owner_id w
   \<and> calls w' = calls w"
  by (auto simp: datetime_now_def)


lemma print_stderr_frame:
  "owner_listings (print_stderr line w) = owner_listings w"
  "detected_owners (print_stderr line w) = detected_owners w"
  "next_owner_id (print_stderr line w) = next_owner_id w"
  "stderr (print_stderr line w) = stderr w @ [line]"
  "calls (print_stderr line w) = calls w"
  "faults (print_stderr line w) = faults w"
  by (simp_all add: print_stderr_def)

lemma select_owner_by_phone_props:
  assumes "select_owner_by_phone p w = (r, w')"
  shows "same_env w w'" "stderr w' = stderr w" "owner_listings w' = owner_listings w"
    "detected_owners w' = detected_owners w" "next_owner_id w' = next_owner_id w"
    "r = Inl e \<Longrightarrow> raised w e"
proof -
  obtain x w1 where x: "execute (SelectOwnerByPhone p) w = (x, w1)"
    by (cases "execute (SelectOwnerByPhone p) w")
  with assms have w': "w' = w1"
    by (auto simp: select_owner_by_phone_def split: option.splits)
  from x w' show "same_env w w'" using execute_env by blast
  from x w' show "stderr w' = stderr w" "owner_listings w' = owner_listings w"
    "detected_owners w' = detected_owners w" "next_owner_id w' = next_owner_id w"
    using execute_frame by blast+
  show "raised w e" if "r = Inl e"
    using that x assms execute_raised [of "SelectOwnerByPhone p" w e w1]
    by (auto simp: select_owner_by_phone_def split: option.splits)
qed

lemma find_existing_props:
  assumes "find_existing g w = (r, w')"
  shows "same_env w w'" "stderr w' = stderr w" "owner_listings w' = owner_listings w"
    "detected_owners w' = detected_owners w" "next_owner_id w' = next_owner_id w"
    "r = Inl e \<Longrightarrow> raised w e"
proof -
  show "same_env w w'" "stderr w' = stderr w" "owner_listings w' = owner_listings w"
    "detected_owners w' = detected_owners w" "next_owner_id w' = next_owner_id w"
    using assms select_owner_by_phone_props(1-5) [of "group_identifier g" w]
    by (auto simp: find_existing_def same_env_refl split: if_splits prod.splits sum.splits list.splits)
  show "raised w e" if "r = Inl e"
    using that assms select_owner_by_phone_props(6) [of "group_identifier g" w]
    by (auto simp: find_existing_def split: if_splits prod.splits sum.splits list.splits)
qed

lemma update_owner_props:
  assumes "update_owner d i w = (r, w')"
  shows "same_env w w'" "stderr w' = stderr w" "owner_listings w' = owner_listings w"
    "next_owner_id w' = next_owner_id w" "r = Some e \<Longrightarrow> raised w e"
  using assms execute_raised [of "UpdateOwner i" w e]
  by (auto simp: update_owner_def execute_def same_env_def raised_def
      split: option.splits prod.splits)

lemma insert_owner_props:
  assumes "insert_owner d w = (r, w')"
  shows "same_env w w'" "stderr w' = stderr w" "owner_listings w' = owner_listings w"
    "r = Inl e \<Longrightarrow> raised w e"
  using assms
  by (auto simp: insert_owner_def execute_def same_env_def raised_def split: option.splits prod.splits)

lemma rpc_props:
  assumes "rpc_calculate_owner_risk_score i w = (r, w')"
  shows "same_env w w'" "stderr w' = stderr w" "owner_listings w' = owner_listings w"
    "next_owner_id w' = next_owner_id w" "r = Some e \<Longrightarrow> raised w e"
  using assms
  by (auto simp: rpc_calculate_owner_risk_score_def execute_def same_env_def raised_def
      split: option.splits prod.splits)


lemma write_owner_props:
  assumes "write_owner existing d st w = (r, st', w')"
  shows "same_env w w'" "stderr w' = stderr w" "owner_listings w' = owner_listings w"
    "r = Inl e \<Longrightarrow> raised w e"
    "r = Inl e \<Longrightarrow> st' = st"
    "r = Inr i \<Longrightarrow> total_owners st' = total_owners st \<and> multi_property st' = multi_property st
       \<and> new_owners st' + updated_owners st' = Suc (new_owners st + updated_owners st)"
proof -
  have all: "same_env w w' \<and> stderr w' = stderr w \<and> owner_listings w' = owner_listings w
    \<and> (\<forall>e. r = Inl e \<longrightarrow> raised w e \<and> st' = st)
    \<and> (\<forall>i. r = Inr i \<longrightarrow> total_owners st' = total_owners st
          \<and> multi_property st' = multi_property st
          \<and> new_owners st' + updated_owners st' = Suc (new_owners st + updated_owners st))"
  proof (cases existing)
    case (Some j)
    obtain x w1 where u: "update_owner d j w = (x, w1)" by (cases "update_owner d j w")
    note up = update_owner_props [OF u]
    from assms Some u have w': "w' = w1"
      by (auto simp: write_owner_def split: option.splits)
    show ?thesis
    proof (cases x)
      case None
      with assms Some u have "r = Inr j" "st' = st\<lparr>updated_owners := updated_owners st + 1\<rparr>"
        by (auto simp: write_owner_def)
      with up w' show ?thesis by simp
    next
      case (Some e')
      with assms \<open>existing = Some j\<close> u have "r = Inl e'" "st' = st"
        by (auto simp: write_owner_def)
      with up w' Some show ?thesis by simp
    qed
  next
    case None
    obtain t w1 where n: "datetime_now w = (t, w1)" by (cases "datetime_now w")
    obtain x w2 where u: "insert_owner (d\<lparr>first_seen_at := Some t\<rparr>) w1 = (x, w2)"
      by (cases "insert_owner (d\<lparr>first_seen_at := Some t\<rparr>) w1")
    note ip = insert_owner_props [OF u]
    note dn = datetime_now_frame [OF n]
    have env: "same_env w w1" using n by (rule datetime_now_env)
    from assms None n u have w': "w' = w2"
      by (auto simp: write_owner_def split: sum.splits)
    have e2: "same_env w w2" using env ip(1) by (rule same_env_trans)
    show ?thesis
    proof (cases x)
      case (Inl e')
      with assms None n u have "r = Inl e'" "st' = st"
        by (auto simp: write_owner_def)
      moreover have "raised w e'" using ip(4) [OF Inl] env raised_env by blast
      ultimately show ?thesis using e2 ip dn w' by simp
    next
      case (Inr k)
      with assms None n u have "r = Inr k" "st' = st\<lparr>new_owners := new_owners st + 1\<rparr>"
        by (auto simp: write_owner_def)
      then show ?thesis using e2 ip dn w' by simp
    qed
  qed
  from all show "same_env w w'" "stderr w' = stderr w" "owner_listings w' = owner_listings w"
    by simp_all
  from all show "r = Inl e \<Longrightarrow> raised w e" "r = Inl e \<Longrightarrow> st' = st" by simp_all
  from all show "r = Inr i \<Longrightarrow> total_owners st' = total_owners st
       \<and> multi_property st' = multi_property st
       \<and> new_owners st' + updated_owners st' = Suc (new_owners st + updated_owners st)"
    by simp
qed




section \<open>The reconciler: one group, and the loop over the groups\<close>






section \<open>The link table: one row for each listing\<close>

lemma upsert_fresh:
  assumes "upsert_owner_listing link w = (r, w')"
    and "scraped_listing_id link \<notin> scraped_listing_id ` set (owner_listings w)"
  shows "owner_listings w' = (if r = None then owner_listings w @ [link] else owner_listings w)"
proof -
  have "\<not> list_ex (same_link link) (owner_listings w)"
    using assms(2) by (auto simp: list_ex_iff same_link_def)
  then show ?thesis
    using assms(1)
    by (auto simp: upsert_owner_listing_def upsert_row_def execute_def split: option.splits)
qed

lemma link_listings_fresh:
  assumes "link_listings i mt ls w = (r, w')"
    and "distinct (map listing_id ls)"
    and "listing_id ` set ls \<inter> scraped_listing_id ` set (owner_listings w) = {}"
  shows "\<exists>k \<le> length ls. owner_listings w' = owner_listings w @ map (link_data i mt) (take k ls)
           \<and> (r = None \<longrightarrow> k = length ls)"
  using assms
proof (induction ls arbitrary: w)
  case Nil
  then show ?case by simp
next
  case (Cons l ls)
  obtain x w1 where u: "upsert_owner_listing (link_data i mt l) w = (x, w1)"
    by (cases "upsert_owner_listing (link_data i mt l) w")
  have fresh: "scraped_listing_id (link_data i mt l) \<notin> scraped_listing_id ` set (owner_listings w)"
    using Cons.prems(3) by (auto simp: link_data_def)
  note uf = upsert_fresh [OF u fresh]
  show ?case
  proof (cases x)
    case (Some e)
    with u Cons.prems(1) have "r = Some e" "w' = w1" by simp_all
    with uf Some show ?thesis by (intro exI [of _ 0]) simp
  next
    case None
    with u Cons.prems(1) have rest: "link_listings i mt ls w1 = (r, w')" by simp
    from uf None have ol: "owner_listings w1 = owner_listings w @ [link_data i mt l]" by simp
    have d: "distinct (map listing_id ls)" using Cons.prems(2) by simp
    have dj: "listing_id ` set ls \<inter> scraped_listing_id ` set (owner_listings w1) = {}"
      using Cons.prems(2,3) ol by (auto simp: link_data_def)
    from Cons.IH [OF rest d dj] obtain k where k: "k \<le> length ls"
      "owner_listings w' = owner_listings w1 @ map (link_data i mt) (take k ls)"
      "r = None \<longrightarrow> k = length ls"
      by blast
    show ?thesis
      using k ol by (intro exI [of _ "Suc k"]) simp
  qed
qed

lemma save_group_links:
  assumes "save_group g st w = (r, st', w')"
    and "distinct (map listing_id (listings g))"
    and "listing_id ` set (listings g) \<inter> scraped_listing_id ` set (owner_listings w) = {}"
  shows "\<exists>i k. k \<le> length (listings g)
           \<and> owner_listings w' =
               owner_listings w @ map (link_data i (match_type g)) (take k (listings g))
           \<and> (r = None \<longrightarrow> k = length (listings g))"
proof -
  obtain now w1 where n: "datetime_now w = (now, w1)" by (cases "datetime_now w")
  obtain x w2 where f: "find_existing g w1 = (x, w2)" by (cases "find_existing g w1")
  note dn = datetime_now_frame [OF n]
  note fe = find_existing_props [OF f]
  have o2: "owner_listings w2 = owner_listings w" using fe(3) dn by simp
  have none: "\<exists>i k. k \<le> length (listings g)
           \<and> owner_listings w' =
               owner_listings w @ map (link_data i (match_type g)) (take k (listings g))
           \<and> (r = None \<longrightarrow> k = length (listings g))"
    if "owner_listings w' = owner_listings w" "r \<noteq> None"
    using that by (intro exI [of _ 0]) auto
  show ?thesis
  proof (cases x)
    case (Inl e)
    with assms(1) n f have "r = Some e" "w' = w2" by (simp_all add: save_group_def)
    with o2 none show ?thesis by simp
  next
    case (Inr existing)
    obtain y st3 w3 where wo: "write_owner existing (build_owner_data g now) st w2 = (y, st3, w3)"
      by (cases "write_owner existing (build_owner_data g now) st w2")
    note wp = write_owner_props [OF wo]
    have o3: "owner_listings w3 = owner_listings w" using wp(3) o2 by simp
    show ?thesis
    proof (cases y)
      case (Inl e)
      with assms(1) n f Inr wo have "r = Some e" "w' = w3" by (simp_all add: save_group_def)
      with o3 none show ?thesis by simp
    next
      case yi: (Inr i)
      obtain z w4 where ll: "link_listings i (match_type g) (listings g) w3 = (z, w4)"
        by (cases "link_listings i (match_type g) (listings g) w3")
      have dj: "listing_id ` set (listings g) \<inter> scraped_listing_id ` set (owner_listings w3) = {}"
        using assms(3) o3 by simp
      from link_listings_fresh [OF ll assms(2) dj] obtain k where k:
        "k \<le> length (listings g)"
        "owner_listings w4 = owner_listings w @ map (link_data i (match_type g)) (take k (listings g))"
        "z = None \<longrightarrow> k = length (listings g)"
        using o3 by auto
      show ?thesis
      proof (cases z)
        case (Some e)
        with assms(1) n f Inr wo yi ll have "r = Some e" "w' = w4" by (simp_all add: save_group_def)
        with k show ?thesis by blast
      next
        case None
        obtain u w5 where rp: "rpc_calculate_owner_risk_score i w4 = (u, w5)"
          by (cases "rpc_calculate_owner_risk_score i w4")
        note rpp = rpc_props [OF rp]
        from assms(1) n f Inr wo yi ll None rp have "w' = w5"
          by (auto simp: save_group_def split: option.splits)
        with rpp(3) k(2) have "owner_listings w' =
            owner_listings w @ map (link_data i (match_type g)) (take k (listings g))"
          by simp
        moreover from k(3) None have "k = length (listings g)" by simp
        ultimately show ?thesis by blast
      qed
    qed
  qed
qed

lemma save_groups_links:
  assumes "save_groups gs st w = (st', w')"
    and "distinct (concat (map (\<lambda>x. map listing_id (listings x)) gs))"
    and "set (concat (map (\<lambda>x. map listing_id (listings x)) gs))
           \<inter> scraped_listing_id ` set (owner_listings w) = {}"
    and "distinct (map scraped_listing_id (owner_listings w))"
  shows "distinct (map scraped_listing_id (owner_listings w'))
    \<and> scraped_listing_id ` set (owner_listings w')
        \<subseteq> scraped_listing_id ` set (owner_listings w)
           \<union> set (concat (map (\<lambda>x. map listing_id (listings x)) gs))"
  using assms
proof (induction gs arbitrary: st w)
  case Nil
  then show ?case by simp
next
  case (Cons g gs)
  let ?rest = "set (concat (map (\<lambda>x. map listing_id (listings x)) gs))"
  obtain r st1 w1 where sg: "save_group g st w = (r, st1, w1)" by (cases "save_group g st w")
  have dg: "distinct (map listing_id (listings g))" using Cons.prems(2) by simp
  have djg: "listing_id ` set (listings g) \<inter> scraped_listing_id ` set (owner_listings w) = {}"
    using Cons.prems(3) by auto
  from save_group_links [OF sg dg djg] obtain i k where k:
    "owner_listings w1 = owner_listings w @ map (link_data i (match_type g)) (take k (listings g))"
    by blast
  have ids1: "map scraped_listing_id (owner_listings w1)
      = map scraped_listing_id (owner_listings w) @ take k (map listing_id (listings g))"
    unfolding k by (simp add: link_data_def comp_def take_map)
  have sub1: "scraped_listing_id ` set (owner_listings w1)
      \<subseteq> scraped_listing_id ` set (owner_listings w) \<union> listing_id ` set (listings g)"
  proof -
    have "set (map scraped_listing_id (owner_listings w1))
        \<subseteq> set (map scraped_listing_id (owner_listings w)) \<union> set (map listing_id (listings g))"
      unfolding ids1 using set_take_subset [of k "map listing_id (listings g)"] by auto
    then show ?thesis by simp
  qed
  have d1: "distinct (map scraped_listing_id (owner_listings w1))"
  proof -
    have "distinct (take k (map listing_id (listings g)))" using dg by (rule distinct_take)
    moreover have "set (map scraped_listing_id (owner_listings w))
        \<inter> set (take k (map listing_id (listings g))) = {}"
      using djg set_take_subset [of k "map listing_id (listings g)"] by auto
    ultimately show ?thesis unfolding ids1 using Cons.prems(4) by simp
  qed
  have drest: "distinct (concat (map (\<lambda>x. map listing_id (listings x)) gs))"
    using Cons.prems(2) by simp
  have dj1: "?rest \<inter> scraped_listing_id ` set (owner_listings w1) = {}"
  proof -
    have a: "?rest \<inter> scraped_listing_id ` set (owner_listings w) = {}"
      using Cons.prems(3) by auto
    have b: "?rest \<inter> listing_id ` set (listings g) = {}"
      using Cons.prems(2) by auto
    have "?rest \<inter> scraped_listing_id ` set (owner_listings w1)
        \<subseteq> ?rest \<inter> (scraped_listing_id ` set (owner_listings w)
                       \<union> listing_id ` set (listings g))"
      using sub1 by (rule Int_mono [OF subset_refl])
    also have "\<dots> = {}" using a b by (simp only: Int_Un_distrib Un_empty)
    finally show ?thesis by simp
  qed
  let ?w1 = "case r of None \<Rightarrow> w1
             | Some e \<Rightarrow> print_stderr (''[Owner Detection] Error saving owner: '' @ e) w1"
  have rest: "save_groups gs st1 ?w1 = (st', w')"
    using sg Cons.prems(1) by (simp split: option.splits)
  have ol: "owner_listings ?w1 = owner_listings w1"
    by (simp add: print_stderr_frame split: option.splits)
  have dj1': "?rest \<inter> scraped_listing_id ` set (owner_listings ?w1) = {}"
    using dj1 by (simp only: ol)
  have d1': "distinct (map scraped_listing_id (owner_listings ?w1))"
    using d1 by (simp only: ol)
  from Cons.IH [OF rest drest dj1' d1']
  have res: "distinct (map scraped_listing_id (owner_listings w'))"
    "scraped_listing_id ` set (owner_listings w')
        \<subseteq> scraped_listing_id ` set (owner_listings w1) \<union> ?rest"
    by (simp_all only: ol)
  have "scraped_listing_id ` set (owner_listings w1) \<union> ?rest
      \<subseteq> scraped_listing_id ` set (owner_listings w)
         \<union> set (concat (map (\<lambda>x. map listing_id (listings x)) (g # gs)))"
    using sub1 by auto
  with res show ?case by (meson subset_trans)
qed

section \<open>One cluster for each listing\<close>

lemma select_active_listings_props:
  assumes "select_active_listings w = (r, w')"
  shows "same_env w w'" "stderr w' = stderr w" "owner_listings w' = owner_listings w"
    "detected_owners w' = detected_owners w" "next_owner_id w' = next_owner_id w"
    "r = Inr ls \<Longrightarrow> ls = filter is_active (scraped_listings w)"
  using assms
  by (auto simp: select_active_listings_def execute_def same_env_def split: option.splits)

lemma cluster_ids_are_listing_ids:
  assumes "distinct (map listing_id ls)"
  shows "\<forall>g \<in> set (build_owner_groups ls).
           listing_ids g = map listing_id (listings g) \<and> listing_ids g \<noteq> []"
proof -
  from build_owner_groups_split [OF assms] obtain ps hs where s:
    "build_owner_groups ls = ps @ hs"
    "\<forall>p \<in> set ps. phone_cluster_ok p"
    "\<forall>h \<in> set hs. host_cluster_ok h
        \<and> set (listing_ids h) \<inter> set (concat (map listing_ids ps)) = {}"
    by blast
  show ?thesis
  proof
    fix g assume "g \<in> set (build_owner_groups ls)"
    with s(1) consider "g \<in> set ps" | "g \<in> set hs" by auto
    then show "listing_ids g = map listing_id (listings g) \<and> listing_ids g \<noteq> []"
    proof cases
      case 1
      with s(2) have "phone_cluster_ok g" by blast
      then show ?thesis unfolding phone_cluster_ok_def by blast
    next
      case 2
      with s(3) have "host_cluster_ok g" by blast
      then show ?thesis unfolding host_cluster_ok_def by blast
    qed
  qed
qed

lemma clusters_distinct:
  assumes "distinct (map listing_id ls)"
  shows "distinct (concat (map listing_ids (build_owner_groups ls)))"
  using build_owner_groups_split [OF assms] by auto

lemma detect_owners_links:
  assumes "distinct (map listing_id (filter is_active (scraped_listings w)))"
    and "owner_listings w = []"
  shows "distinct (map scraped_listing_id (owner_listings (snd (detect_owners w))))"
proof -
  let ?w0 = "print_stderr (CHR 0x0A # ''[Owner Detection] Starting analysis...'') w"
  obtain r w1 where sel: "select_active_listings ?w0 = (r, w1)"
    by (cases "select_active_listings ?w0")
  note sp = select_active_listings_props [OF sel]
  have o1: "owner_listings w1 = []" using sp(3) assms(2) by (simp add: print_stderr_frame)
  show ?thesis
  proof (cases r)
    case (Inl e)
    with sel have "detect_owners w = (Inl e, w1)" by (simp add: detect_owners_def)
    with o1 show ?thesis by simp
  next
    case (Inr ls)
    have ls: "ls = filter is_active (scraped_listings w)"
      using sp(6) [OF Inr] by (simp add: print_stderr_def)
    with assms(1) have d: "distinct (map listing_id ls)" by simp
    let ?gs = "build_owner_groups ls"
    let ?w2 = "print_stderr
                 (''[Owner Detection] Analyzing '' @ str_nat (length ls) @ '' listings'') w1"
    let ?w3 = "print_stderr
                 (''[Owner Detection] Found '' @ str_nat (length ?gs) @ '' owner groups'') ?w2"
    obtain st w4 where sv: "save_owners_to_db ?gs ?w3 = (st, w4)"
      by (cases "save_owners_to_db ?gs ?w3")
    from sel Inr sv have res: "detect_owners w = (Inr st, w4)"
      by (simp add: detect_owners_def Let_def)
    have o3: "owner_listings ?w3 = []" using o1 by (simp add: print_stderr_frame)
    have eq: "map (\<lambda>x. map listing_id (listings x)) ?gs = map listing_ids ?gs"
      using cluster_ids_are_listing_ids [OF d] by (intro map_cong) auto
    have dd: "distinct (concat (map (\<lambda>x. map listing_id (listings x)) ?gs))"
      unfolding eq using d by (rule clusters_distinct)
    from sv have sg: "save_groups ?gs
        \<lparr>total_owners = 0, multi_property = 0, new_owners = 0, updated_owners = 0\<rparr> ?w3 = (st, w4)"
      by (simp add: save_owners_to_db_def)
    have "distinct (map scraped_listing_id (owner_listings w4))"
      using save_groups_links [OF sg dd] o3 by simp
    with res show ?thesis by simp
  qed
qed

text \<open>
  Claim C1. Over any set of active listings (their ids are distinct, as the store keeps
  them), no listing id is in more than one cluster: the clusters are the phone clusters
  first, then the host-id clusters; a host-id cluster holds only listings that no phone
  cluster holds; no cluster is empty, so a host-id group whose listings are all claimed
  gives none. Hence, on a store with no link, after one run every listing is in at most one
  row of the link table, whatever fails during the run.
\<close>

theorem one_cluster_per_listing:
  assumes "distinct (map listing_id ls)"
  shows "distinct (concat (map listing_ids (build_owner_groups ls)))
    \<and> (\<exists>ps hs. build_owner_groups ls = ps @ hs
          \<and> (\<forall>p \<in> set ps. match_type p = Phone)
          \<and> (\<forall>h \<in> set hs. match_type h = HostId
                \<and> set (listing_ids h) \<inter> set (concat (map listing_ids ps)) = {})
          \<and> set (concat (map listings ps)) = {l \<in> set ls. extract_phone_from_listing l \<noteq> None})
    \<and> (\<forall>g \<in> set (build_owner_groups ls).
          listing_ids g = map listing_id (listings g) \<and> listing_ids g \<noteq> [])
    \<and> (filter is_active (scraped_listings w) = ls \<and> owner_listings w = []
          \<longrightarrow> distinct (map scraped_listing_id (owner_listings (snd (detect_owners w)))))"
proof -
  have a: "distinct (concat (map listing_ids (build_owner_groups ls)))"
    using assms by (rule clusters_distinct)
  from build_owner_groups_split [OF assms] obtain ps hs where s:
    "build_owner_groups ls = ps @ hs"
    "\<forall>p \<in> set ps. phone_cluster_ok p"
    "\<forall>h \<in> set hs. host_cluster_ok h
        \<and> set (listing_ids h) \<inter> set (concat (map listing_ids ps)) = {}"
    "set (concat (map listings ps)) = {l \<in> set ls. extract_phone_from_listing l \<noteq> None}"
    by blast
  have p: "\<forall>p \<in> set ps. match_type p = Phone"
    using s(2) unfolding phone_cluster_ok_def by blast
  have h: "\<forall>h \<in> set hs. match_type h = HostId
      \<and> set (listing_ids h) \<inter> set (concat (map listing_ids ps)) = {}"
    using s(3) unfolding host_cluster_ok_def by blast
  from s(1,4) p h have b: "\<exists>ps hs. build_owner_groups ls = ps @ hs
          \<and> (\<forall>p \<in> set ps. match_type p = Phone)
          \<and> (\<forall>h \<in> set hs. match_type h = HostId
                \<and> set (listing_ids h) \<inter> set (concat (map listing_ids ps)) = {})
          \<and> set (concat (map listings ps)) = {l \<in> set ls. extract_phone_from_listing l \<noteq> None}"
    by blast
  note c = cluster_ids_are_listing_ids [OF assms]
  have d: "filter is_active (scraped_listings w) = ls \<and> owner_listings w = []
          \<longrightarrow> distinct (map scraped_listing_id (owner_listings (snd (detect_owners w))))"
    using detect_owners_links [of w] assms by blast
  from a b c d show ?thesis by blast
qed


lemmas build_defs = build_owner_groups_def group_listings_def group_step_def
  extract_phone_from_listing_def phone_fields_def normalize_phone_def isdigit_def
  startswith_def host_id_key_def host_platforms_def four_listings_def a_listing_def

theorem one_cluster_per_listing_witness:
  "map listing_ids (build_owner_groups four_listings) = [[1, 3], [4], [2]]
   \<and> map group_identifier (build_owner_groups four_listings)
       = [''+221771111111'', ''+221772222222'', ''airbnb:h1'']
   \<and> distinct (concat (map listing_ids (build_owner_groups four_listings)))
   \<and> distinct (map scraped_listing_id
        (owner_listings (snd (detect_owners (empty_store four_listings (\<lambda>n. None))))))"
proof -
  have d: "distinct (map listing_id four_listings)"
    by (simp add: four_listings_def a_listing_def)
  have f: "filter is_active (scraped_listings (empty_store four_listings (\<lambda>n. None)))
      = four_listings \<and> owner_listings (empty_store four_listings (\<lambda>n. None)) = []"
    by (simp add: empty_store_def four_listings_def a_listing_def)
  have e: "map listing_ids (build_owner_groups four_listings) = [[1, 3], [4], [2]]"
    by (simp add: build_defs)
  have i: "map group_identifier (build_owner_groups four_listings)
       = [''+221771111111'', ''+221772222222'', ''airbnb:h1'']"
    by (simp add: build_defs)
  from one_cluster_per_listing [OF d, of "empty_store four_listings (\<lambda>n. None)"] f e i
  show ?thesis by blast
qed

section \<open>A run in which the store raises nothing\<close>



lemma no_faults_upd [simp]:
  "no_faults (w\<lparr>calls := c\<rparr>) = no_faults w"
  "no_faults (w\<lparr>owner_listings := l\<rparr>) = no_faults w"
  "no_faults (w\<lparr>detected_owners := d\<rparr>) = no_faults w"
  "no_faults (w\<lparr>next_owner_id := n\<rparr>) = no_faults w"
  "no_faults (w\<lparr>clock_reads := k\<rparr>) = no_faults w"
  "no_faults (w\<lparr>stderr := s\<rparr>) = no_faults w"
  by (simp_all add: no_faults_def)










section \<open>Phone clusters: update or insert\<close>

lemma set_risk_cols [simp]:
  "map owner_id (set_risk i v rows) = map owner_id rows"
  "map owner_fields (set_risk i v rows) = map owner_fields rows"
  "length (set_risk i v rows) = length rows"
  by (simp_all add: set_risk_def)








section \<open>Host-id clusters: always an insert\<close>








section \<open>The link table under upserts\<close>





















section \<open>The reconciler on the tables\<close>





lemma apply_update_id [simp]: "owner_id (apply_update d r) = owner_id r"
  by (simp add: apply_update_def)





section \<open>One step on the tables\<close>













section \<open>Runs on the tables\<close>

lemma abs_run_simps [simp]:
  "abs_run [] s = s"
  "abs_run (g # gs) s = abs_run gs (abs_step g s)"
  by (simp_all add: abs_run_def)


lemma counted_fields [simp]:
  "updated_owners (counted g st) = updated_owners st"
  "new_owners (counted g st) = new_owners st"
  "total_owners (counted g st) = Suc (total_owners st)"
  by (simp_all add: counted_def)





section \<open>Runs of the program on the tables\<close>












section \<open>Two runs over the same listings\<close>




section \<open>Host-id owners have no key\<close>
















section \<open>The passes of the reconciler and its counters\<close>





























end
